theory Spec2Isabelle
  imports Main
begin

section \<open>Data model of snake.py\<close>

text \<open>
  Positions are pairs \<open>(y, x)\<close> of Python integers, row first, as in
  \<open>SnakeElement(y, x)\<close>, \<open>Mouse(y, x)\<close> and the tuples of \<open>get_free_cell\<close>.
\<close>

type_synonym pos = "int \<times> int"

datatype Direction = LEFT | RIGHT | UP | DOWN

text \<open>
  The exceptions the modelled code can raise: \<open>GameOver(message)\<close>, and the two
  built-in ones that indexing a list out of range and calling a method of \<open>None\<close> raise.
\<close>

datatype error = GameOver string | IndexError | AttributeError

record GameField =
  cells :: "bool list list"
  width :: int
  height :: int

text \<open>
  One record for the objects the snake works on: the \<open>Snake\<close>'s own fields, the
  \<open>GameField\<close> it shares with the border, \<open>info.score\<close>, and the \<open>Mouse\<close> objects
  registered in \<open>game_world.game_objects\<close>, in registration order.
\<close>

record Snake =
  direction :: Direction
  direction_changed :: bool
  snake_elements :: "pos list"
  game_field :: GameField
  score :: int
  mice :: "pos list"

text \<open>
  A call either returns, with the state it leaves, or raises, and then the state
  mutated so far stays behind: \<open>GameWorld.run\<close> draws it after catching \<open>GameOver\<close>.
\<close>

datatype outcome = Done Snake | Raised error Snake

fun final :: "outcome \<Rightarrow> Snake" where
  "final (Done s) = s"
| "final (Raised e s) = s"

fun bind :: "outcome \<Rightarrow> (Snake \<Rightarrow> outcome) \<Rightarrow> outcome" where
  "bind (Done s) f = f s"
| "bind (Raised e s) f = Raised e s"

section \<open>Key codes and the heading\<close>

text \<open>
  The values of the \<open>Direction\<close> enum are the key codes of the curses library,
  which is not part of the repository; these are the values of ncurses.
\<close>

definition KEY_DOWN :: int where "KEY_DOWN = 258"
definition KEY_UP :: int where "KEY_UP = 259"
definition KEY_LEFT :: int where "KEY_LEFT = 260"
definition KEY_RIGHT :: int where "KEY_RIGHT = 261"

text \<open>\<open>Direction(event)\<close>: the member with that value; \<open>None\<close> stands for \<open>ValueError\<close>.\<close>

definition Direction_of :: "int \<Rightarrow> Direction option" where
  "Direction_of event =
     (if event = KEY_LEFT then Some LEFT
      else if event = KEY_RIGHT then Some RIGHT
      else if event = KEY_UP then Some UP
      else if event = KEY_DOWN then Some DOWN
      else None)"

text \<open>\<open>Snake.change_direction\<close>, one call under the lock.\<close>

definition change_direction :: "Snake \<Rightarrow> Direction \<Rightarrow> Snake" where
  "change_direction s new_direction =
     (if \<not> direction_changed s then
        (if new_direction = RIGHT \<and> direction s \<notin> {RIGHT, LEFT} then s\<lparr>direction := RIGHT\<rparr>
         else if new_direction = LEFT \<and> direction s \<notin> {RIGHT, LEFT} then s\<lparr>direction := LEFT\<rparr>
         else if new_direction = UP \<and> direction s \<notin> {UP, DOWN} then s\<lparr>direction := UP\<rparr>
         else if new_direction = DOWN \<and> direction s \<notin> {UP, DOWN} then s\<lparr>direction := DOWN\<rparr>
         else s)\<lparr>direction_changed := True\<rparr>
      else s)"

text \<open>\<open>Snake.event_received\<close>: the \<open>ValueError\<close> of \<open>Direction(event)\<close> is swallowed.\<close>

definition event_received :: "Snake \<Rightarrow> int \<Rightarrow> Snake" where
  "event_received s event =
     (case Direction_of event of None \<Rightarrow> s | Some d \<Rightarrow> change_direction s d)"

text \<open>The events of the input thread between two ticks, delivered in order.\<close>

definition events_received :: "Snake \<Rightarrow> int list \<Rightarrow> Snake" where
  "events_received s events = foldl event_received s events"

text \<open>The specification's axis pairs and the opposite heading.\<close>

definition same_axis :: "Direction \<Rightarrow> Direction \<Rightarrow> bool" where
  "same_axis a b = ((a \<in> {LEFT, RIGHT} \<and> b \<in> {LEFT, RIGHT}) \<or> (a \<in> {UP, DOWN} \<and> b \<in> {UP, DOWN}))"

fun opposite :: "Direction \<Rightarrow> Direction" where
  "opposite LEFT = RIGHT"
| "opposite RIGHT = LEFT"
| "opposite UP = DOWN"
| "opposite DOWN = UP"

definition recognized :: "int \<Rightarrow> bool" where
  "recognized event = (event \<in> {KEY_LEFT, KEY_RIGHT, KEY_UP, KEY_DOWN})"

section \<open>The occupancy grid\<close>

text \<open>
  Python's list indexing: an index from \<open>-len\<close> to \<open>len - 1\<close> is valid, a negative
  one counting from the end; anything else raises \<open>IndexError\<close> (here \<open>None\<close>).
\<close>

definition py_index :: "'a list \<Rightarrow> int \<Rightarrow> nat option" where
  "py_index xs i =
     (if 0 \<le> i \<and> i < int (length xs) then Some (nat i)
      else if i < 0 \<and> - int (length xs) \<le> i then Some (nat (int (length xs) + i))
      else None)"

text \<open>The read \<open>cells[y][x]\<close> and the write \<open>cells[y][x] = v\<close>.\<close>

definition get_cell :: "bool list list \<Rightarrow> int \<Rightarrow> int \<Rightarrow> bool option" where
  "get_cell cs y x =
     (case py_index cs y of
        None \<Rightarrow> None
      | Some r \<Rightarrow> (case py_index (cs ! r) x of None \<Rightarrow> None | Some c \<Rightarrow> Some (cs ! r ! c)))"

definition set_cell :: "bool list list \<Rightarrow> int \<Rightarrow> int \<Rightarrow> bool \<Rightarrow> bool list list option" where
  "set_cell cs y x v =
     (case py_index cs y of
        None \<Rightarrow> None
      | Some r \<Rightarrow> (case py_index (cs ! r) x of
                    None \<Rightarrow> None
                  | Some c \<Rightarrow> Some (cs[r := (cs ! r)[c := v]])))"

text \<open>\<open>GameField.__init__\<close>; \<open>range\<close> of a negative number is empty.\<close>

definition GameField_init :: "int \<Rightarrow> int \<Rightarrow> GameField" where
  "GameField_init w h =
     \<lparr>cells = replicate (nat h) (replicate (nat w) False), width = w, height = h\<rparr>"

text \<open>
  The two nested loops of \<open>GameField.get_free_cell\<close>, over the cells they visit in
  the order they visit them; \<open>range(1, n - 2)\<close> is \<open>1, ..., n - 3\<close>.
\<close>

fun collect_free :: "bool list list \<Rightarrow> pos list \<Rightarrow> pos list \<Rightarrow> error + pos list" where
  "collect_free cs [] free_cells = Inr free_cells"
| "collect_free cs ((y, x) # rest) free_cells =
     (case get_cell cs y x of
        None \<Rightarrow> Inl IndexError
      | Some b \<Rightarrow> collect_free cs rest (if \<not> b then free_cells @ [(y, x)] else free_cells))"

definition scanned :: "GameField \<Rightarrow> pos list" where
  "scanned f = List.product [1..height f - 3] [1..width f - 3]"

definition free_cells_of :: "GameField \<Rightarrow> error + pos list" where
  "free_cells_of f = collect_free (cells f) (scanned f) []"

text \<open>
  \<open>GameField.get_free_cell\<close>. \<open>random.choice\<close> returns one element of the list; the
  number \<open>r\<close> stands for the random draw.
\<close>

definition get_free_cell :: "GameField \<Rightarrow> nat \<Rightarrow> error + pos" where
  "get_free_cell f r =
     (case free_cells_of f of
        Inl e \<Rightarrow> Inl e
      | Inr free_cells \<Rightarrow>
          if free_cells = [] then Inl (GameOver ''win'')
          else Inr (free_cells ! (r mod length free_cells)))"

text \<open>\<open>Border.__init__\<close>: the cells its two loops write, in order, and the writes.\<close>

definition border_list :: "int \<Rightarrow> int \<Rightarrow> pos list" where
  "border_list h w =
     concat (map (\<lambda>x. [(0, x), (h - 1, x)]) [0..w - 1])
     @ concat (map (\<lambda>y. [(y, 0), (y, w - 1)]) [0..h - 1])"

fun mark_all :: "bool list list \<Rightarrow> pos list \<Rightarrow> bool list list option" where
  "mark_all cs [] = Some cs"
| "mark_all cs ((y, x) # ps) =
     (case set_cell cs y x True of None \<Rightarrow> None | Some cs' \<Rightarrow> mark_all cs' ps)"

definition Border_init :: "int \<Rightarrow> int \<Rightarrow> GameField \<Rightarrow> error + GameField" where
  "Border_init h w f =
     (case mark_all (cells f) (border_list h w) of
        None \<Rightarrow> Inl IndexError
      | Some cs \<Rightarrow> Inr (f\<lparr>cells := cs\<rparr>))"

section \<open>The snake\<close>

text \<open>
  \<open>Snake.__init__\<close>, given the field, the mice already registered in the world and the
  score of the info panel.
\<close>

definition Snake_init :: "GameField \<Rightarrow> pos list \<Rightarrow> int \<Rightarrow> nat \<Rightarrow> error + Snake" where
  "Snake_init f ms sc r =
     (case get_free_cell f r of
        Inl e \<Rightarrow> Inl e
      | Inr (y, x) \<Rightarrow>
          (case set_cell (cells f) y x True of
             None \<Rightarrow> Inl IndexError
           | Some cs \<Rightarrow>
               Inr \<lparr>direction = RIGHT, direction_changed = False, snake_elements = [(y, x)],
                    game_field = f\<lparr>cells := cs\<rparr>, score = sc, mice = ms\<rparr>))"

text \<open>
  The set-up of \<open>main\<close> for a border of the given height and width (\<open>main\<close> itself has
  8 and 26): field, border, snake, then the first mouse.
\<close>

definition new_game :: "int \<Rightarrow> int \<Rightarrow> nat \<Rightarrow> nat \<Rightarrow> error + Snake" where
  "new_game game_border_height game_border_width r1 r2 =
     (case Border_init game_border_height game_border_width
             (GameField_init game_border_width game_border_height) of
        Inl e \<Rightarrow> Inl e
      | Inr f \<Rightarrow>
          (case Snake_init f [] 0 r1 of
             Inl e \<Rightarrow> Inl e
           | Inr s \<Rightarrow>
               (case get_free_cell (game_field s) r2 of
                  Inl e \<Rightarrow> Inl e
                | Inr m \<Rightarrow> Inr (s\<lparr>mice := mice s @ [m]\<rparr>))))"

definition main_game :: "nat \<Rightarrow> nat \<Rightarrow> error + Snake" where
  "main_game r1 r2 = new_game 8 26 r1 r2"

definition put_cells :: "Snake \<Rightarrow> bool list list \<Rightarrow> Snake" where
  "put_cells s cs = s\<lparr>game_field := (game_field s)\<lparr>cells := cs\<rparr>\<rparr>"

text \<open>\<open>Mouse.intersect\<close>.\<close>

definition intersect :: "pos \<Rightarrow> pos \<Rightarrow> bool" where
  "intersect m hd_elem = (snd m = snd hd_elem \<and> fst m = fst hd_elem)"

text \<open>The four \<open>_move_*\<close> methods: the check of the cell ahead, then the new head.\<close>

definition move_right :: "Snake \<Rightarrow> outcome" where
  "move_right s =
     (case snake_elements s of
        [] \<Rightarrow> Raised IndexError s
      | (y, x) # rest \<Rightarrow>
          (case get_cell (cells (game_field s)) y (x + 1) of
             None \<Rightarrow> Raised IndexError s
           | Some b \<Rightarrow>
               if b then Raised (GameOver ''bumped right'') s
               else Done (s\<lparr>snake_elements := (y, x + 1) # rest\<rparr>)))"

definition move_left :: "Snake \<Rightarrow> outcome" where
  "move_left s =
     (case snake_elements s of
        [] \<Rightarrow> Raised IndexError s
      | (y, x) # rest \<Rightarrow>
          (case get_cell (cells (game_field s)) y (x - 1) of
             None \<Rightarrow> Raised IndexError s
           | Some b \<Rightarrow>
               if b then Raised (GameOver ''bumped left'') s
               else Done (s\<lparr>snake_elements := (y, x - 1) # rest\<rparr>)))"

definition move_up :: "Snake \<Rightarrow> outcome" where
  "move_up s =
     (case snake_elements s of
        [] \<Rightarrow> Raised IndexError s
      | (y, x) # rest \<Rightarrow>
          (case get_cell (cells (game_field s)) (y - 1) x of
             None \<Rightarrow> Raised IndexError s
           | Some b \<Rightarrow>
               if b then Raised (GameOver ''bumped up'') s
               else Done (s\<lparr>snake_elements := (y - 1, x) # rest\<rparr>)))"

definition move_down :: "Snake \<Rightarrow> outcome" where
  "move_down s =
     (case snake_elements s of
        [] \<Rightarrow> Raised IndexError s
      | (y, x) # rest \<Rightarrow>
          (case get_cell (cells (game_field s)) (y + 1) x of
             None \<Rightarrow> Raised IndexError s
           | Some b \<Rightarrow>
               if b then Raised (GameOver ''bumped down'') s
               else Done (s\<lparr>snake_elements := (y + 1, x) # rest\<rparr>)))"

text \<open>The last statement of \<open>_move_head\<close>: the head's cell is marked.\<close>

definition mark_head :: "Snake \<Rightarrow> outcome" where
  "mark_head s =
     (case snake_elements s of
        [] \<Rightarrow> Raised IndexError s
      | (y, x) # rest \<Rightarrow>
          (case set_cell (cells (game_field s)) y x True of
             None \<Rightarrow> Raised IndexError s
           | Some cs \<Rightarrow> Done (put_cells s cs)))"

definition move_head :: "Snake \<Rightarrow> outcome" where
  "move_head s =
     bind (case direction s of
             RIGHT \<Rightarrow> move_right s
           | LEFT \<Rightarrow> move_left s
           | UP \<Rightarrow> move_up s
           | DOWN \<Rightarrow> move_down s)
          mark_head"

text \<open>
  The loop of \<open>_move_tail\<close> over the segments after the head: \<open>prev\<close> is
  \<open>(prev_elem_y, prev_elem_x)\<close>. It returns whether it ran to its end (a write outside
  the grid raises \<open>IndexError\<close> after the segment was already moved), the segments
  after the head, the cells, and \<open>prev\<close> at the exit.
\<close>

fun move_tail_loop ::
  "pos \<Rightarrow> pos list \<Rightarrow> bool list list \<Rightarrow> bool \<times> pos list \<times> bool list list \<times> pos" where
  "move_tail_loop prev [] cs = (True, [], cs, prev)"
| "move_tail_loop prev (e # es) cs =
     (case set_cell cs (fst prev) (snd prev) True of
        None \<Rightarrow> (False, prev # es, cs, e)
      | Some cs' \<Rightarrow>
          (case move_tail_loop e es cs' of
             (ok, es', cs'', last_prev) \<Rightarrow> (ok, prev # es', cs'', last_prev)))"

definition move_tail :: "Snake \<Rightarrow> outcome" where
  "move_tail s =
     (case snake_elements s of
        [] \<Rightarrow> Raised IndexError s
      | h # t \<Rightarrow>
          (case move_tail_loop h t (cells (game_field s)) of
             (ok, t', cs, last_prev) \<Rightarrow>
               if \<not> ok then Raised IndexError (put_cells (s\<lparr>snake_elements := h # t'\<rparr>) cs)
               else
                 (case set_cell cs (fst last_prev) (snd last_prev) False of
                    None \<Rightarrow> Raised IndexError (put_cells (s\<lparr>snake_elements := h # t'\<rparr>) cs)
                  | Some cs' \<Rightarrow> Done (put_cells (s\<lparr>snake_elements := h # t'\<rparr>) cs'))))"

definition move :: "Snake \<Rightarrow> outcome" where
  "move s = bind (move_tail s) move_head"

definition grow :: "Snake \<Rightarrow> outcome" where
  "grow s =
     (case snake_elements s of
        [] \<Rightarrow> Raised IndexError s
      | (y, x) # rest \<Rightarrow> move_head (s\<lparr>snake_elements := (y, x) # (y, x) # rest\<rparr>))"

text \<open>
  What \<open>Snake.action\<close> does once the head is on the mouse: grow, count, take the
  mice out of the world and add a new one on a free cell.
\<close>

definition eat :: "nat \<Rightarrow> Snake \<Rightarrow> outcome" where
  "eat r s =
     bind (grow s)
       (\<lambda>s2. (case get_free_cell (game_field s2) r of
                Inl e \<Rightarrow> Raised e (s2\<lparr>score := score s2 + 1, mice := []\<rparr>)
              | Inr m \<Rightarrow> Done (s2\<lparr>score := score s2 + 1, mice := [m]\<rparr>)))"

text \<open>
  Whether the first mouse of the world is under the head; \<open>get_game_object\<close> returns
  \<open>None\<close> when there is no mouse, and the call of \<open>intersect\<close> on it raises.
\<close>

definition mouse_under_head :: "Snake \<Rightarrow> error + bool" where
  "mouse_under_head s =
     (case mice s of
        [] \<Rightarrow> Inl AttributeError
      | m # ms \<Rightarrow>
          (case snake_elements s of
             [] \<Rightarrow> Inl IndexError
           | hd_elem # rest \<Rightarrow> Inr (intersect m hd_elem)))"

text \<open>
  \<open>Snake.action\<close>, one tick of the snake, run with no key event arriving while it
  runs; \<open>r\<close> is the draw for a new mouse.
\<close>

definition action :: "Snake \<Rightarrow> nat \<Rightarrow> outcome" where
  "action s r =
     bind (move s)
       (\<lambda>s1. bind (case mouse_under_head s1 of
                     Inl e \<Rightarrow> Raised e s1
                   | Inr eaten \<Rightarrow> if eaten then eat r s1 else Done s1)
               (\<lambda>s3. Done (s3\<lparr>direction_changed := False\<rparr>)))"

text \<open>
  \<open>Snake.action\<close> with the input thread running beside it. \<open>action\<close> holds the lock
  only inside \<open>_move_head\<close>, so \<open>change_direction\<close> can run between its statements:
  the events \<open>between\<close> arrive after \<open>move\<close> has returned and before \<open>grow\<close> advances
  the head, the events \<open>late\<close> after that and before the flag is cleared. Events that
  arrive before the head's first advance act as events before the tick, since the tail
  shift reads neither the heading nor the flag.
\<close>

definition action_keys :: "Snake \<Rightarrow> int list \<Rightarrow> int list \<Rightarrow> nat \<Rightarrow> outcome" where
  "action_keys s between late r =
     bind (move s)
       (\<lambda>s1. bind (case mouse_under_head (events_received s1 between) of
                     Inl e \<Rightarrow> Raised e (events_received s1 between)
                   | Inr eaten \<Rightarrow>
                       if eaten then eat r (events_received s1 between)
                       else Done (events_received s1 between))
               (\<lambda>s3. Done ((events_received s3 late)\<lparr>direction_changed := False\<rparr>)))"

text \<open>
  The game loop as the snake sees it: the input thread delivers key codes
  (\<open>InputProcessor.run\<close>), the loop of \<open>GameWorld.run\<close> calls \<open>action\<close> once per tick
  and stops at the first exception. In these runs the key codes arrive between ticks.
\<close>

datatype input = Key int | Tick nat

fun play :: "Snake \<Rightarrow> input list \<Rightarrow> outcome" where
  "play s [] = Done s"
| "play s (Key ev # ins) = play (event_received s ev) ins"
| "play s (Tick r # ins) =
     (case action s r of Done s' \<Rightarrow> play s' ins | Raised e s' \<Rightarrow> Raised e s')"

section \<open>Notions of the specification\<close>

text \<open>The cell one step ahead of a position, and the cause a collision reports.\<close>

fun ahead :: "Direction \<Rightarrow> pos \<Rightarrow> pos" where
  "ahead RIGHT (y, x) = (y, x + 1)"
| "ahead LEFT (y, x) = (y, x - 1)"
| "ahead UP (y, x) = (y - 1, x)"
| "ahead DOWN (y, x) = (y + 1, x)"

fun bumped :: "Direction \<Rightarrow> string" where
  "bumped RIGHT = ''bumped right''"
| "bumped LEFT = ''bumped left''"
| "bumped UP = ''bumped up''"
| "bumped DOWN = ''bumped down''"

text \<open>A field whose cell matrix has the declared height and width.\<close>

definition wf_field :: "GameField \<Rightarrow> bool" where
  "wf_field f =
     (length (cells f) = nat (height f) \<and> list_all (\<lambda>row. length row = nat (width f)) (cells f))"

definition in_grid :: "GameField \<Rightarrow> pos \<Rightarrow> bool" where
  "in_grid f p = (0 \<le> fst p \<and> fst p < height f \<and> 0 \<le> snd p \<and> snd p < width f)"

text \<open>The one-cell ring at the edge of an \<open>h\<close> by \<open>w\<close> grid, and the cells inside it.\<close>

definition in_border :: "int \<Rightarrow> int \<Rightarrow> pos \<Rightarrow> bool" where
  "in_border h w p =
     (0 \<le> fst p \<and> fst p < h \<and> 0 \<le> snd p \<and> snd p < w
      \<and> (fst p = 0 \<or> fst p = h - 1 \<or> snd p = 0 \<or> snd p = w - 1))"

definition interior :: "GameField \<Rightarrow> pos \<Rightarrow> bool" where
  "interior f p = (0 < fst p \<and> fst p < height f - 1 \<and> 0 < snd p \<and> snd p < width f - 1)"

definition grid_positions :: "GameField \<Rightarrow> pos list" where
  "grid_positions f = List.product [0..height f - 1] [0..width f - 1]"

text \<open>The cells of the grid that are marked occupied.\<close>

definition occupied :: "GameField \<Rightarrow> pos set" where
  "occupied f = set (filter (\<lambda>p. get_cell (cells f) (fst p) (snd p) = Some True) (grid_positions f))"

definition border_cells :: "GameField \<Rightarrow> pos set" where
  "border_cells f = set (filter (in_border (height f) (width f)) (grid_positions f))"

text \<open>
  The states of a game: the set-up, then input events and ticks in any order, the
  ticks with or without key events arriving while they run. A successful \<open>move\<close> on
  its own is a step too.
\<close>

inductive reachable :: "Snake \<Rightarrow> bool" where
  start: "new_game h w r1 r2 = Inr s \<Longrightarrow> reachable s"
| event: "reachable s \<Longrightarrow> reachable (event_received s ev)"
| moved: "reachable s \<Longrightarrow> move s = Done s' \<Longrightarrow> reachable s'"
| tick: "reachable s \<Longrightarrow> action s r = Done s' \<Longrightarrow> reachable s'"
| tick_keys: "reachable s \<Longrightarrow> action_keys s between late r = Done s' \<Longrightarrow> reachable s'"

text \<open>What every state of a game satisfies.\<close>

definition snake_inv :: "Snake \<Rightarrow> bool" where
  "snake_inv s =
     (wf_field (game_field s)
      \<and> snake_elements s \<noteq> []
      \<and> distinct (snake_elements s)
      \<and> list_all (interior (game_field s)) (snake_elements s)
      \<and> occupied (game_field s) = border_cells (game_field s) \<union> set (snake_elements s))"

text \<open>A snake of one segment on an empty 8 by 26 field, for the concrete instances.\<close>

definition demo :: Snake where
  "demo = \<lparr>direction = RIGHT, direction_changed = False, snake_elements = [(1, 1)],
           game_field = \<lparr>cells = replicate 8 (replicate 26 False), width = 26, height = 8\<rparr>,
           score = 0, mice = [(3, 3)]\<rparr>"

text \<open>
  The 4 by 4 field after \<open>Border(4, 4, field)\<close> and \<open>Snake(field, ...)\<close>, whose
  only possible first cell is \<open>(1, 1)\<close>.
\<close>

definition small_field :: GameField where
  "small_field =
     \<lparr>cells = [[True, True, True, True],
               [True, True, False, True],
               [True, False, False, True],
               [True, True, True, True]],
      width = 4, height = 4\<rparr>"

text \<open>
  A field of the size of \<open>main\<close>, 8 rows of 26 cells: the border ring and rows 1 to 5
  of columns 1 to 23 are marked, row 6 and column 24 inside the ring are free.
\<close>

definition crowded_field :: GameField where
  "crowded_field =
     \<lparr>cells = replicate 26 True
               # replicate 5 (replicate 24 True @ [False, True])
               @ [True # replicate 24 False @ [True], replicate 26 True],
      width = 26, height = 8\<rparr>"

text \<open>
  States of a game on the board of \<open>main\<close>: the field with the border ring and the
  given cells marked, the state after the set-up with the draws 0 and 0, the state
  one tick later, after the first mouse was eaten, and a later state with the snake
  coiled in a square.
\<close>

definition board :: "pos list \<Rightarrow> GameField" where
  "board ps =
     \<lparr>cells = map (\<lambda>y. map (\<lambda>x. in_border 8 26 (y, x) \<or> (y, x) \<in> set ps) [0..25]) [0..7],
      width = 26, height = 8\<rparr>"

definition kickoff :: Snake where
  "kickoff = \<lparr>direction = RIGHT, direction_changed = False, snake_elements = [(1, 1)],
              game_field = board [(1, 1)], score = 0, mice = [(1, 2)]\<rparr>"

definition fed :: Snake where
  "fed = \<lparr>direction = RIGHT, direction_changed = False, snake_elements = [(1, 3), (1, 2)],
          game_field = board [(1, 3), (1, 2)], score = 1, mice = [(1, 4)]\<rparr>"

definition coiled :: Snake where
  "coiled = \<lparr>direction = UP, direction_changed = True,
             snake_elements = [(2, 6), (2, 7), (1, 7), (1, 6)],
             game_field = board [(2, 6), (2, 7), (1, 7), (1, 6)], score = 3, mice = [(5, 23)]\<rparr>"

text \<open>A snake heading left with the mouse between its head and the wall.\<close>

definition cornered :: Snake where
  "cornered = \<lparr>direction = LEFT, direction_changed = False, snake_elements = [(1, 2)],
               game_field = board [(1, 2)], score = 0, mice = [(1, 1)]\<rparr>"

definition coiled_plays :: "input list" where
  "coiled_plays =
     [Tick 1, Tick 2, Tick 110, Key KEY_DOWN, Tick 0, Key KEY_LEFT, Tick 0, Key KEY_UP]"

text \<open>The 4 by 4 field with its one-segment snake and a mouse ahead of it.\<close>

definition tiny :: Snake where
  "tiny = \<lparr>direction = RIGHT, direction_changed = False, snake_elements = [(1, 1)],
           game_field = small_field, score = 0, mice = [(1, 2)]\<rparr>"

section \<open>Heading changes\<close>

lemma Direction_of_unrecognized: "\<not> recognized event \<Longrightarrow> Direction_of event = None"
  by (simp add: recognized_def Direction_of_def)

lemma Direction_of_recognized: "recognized event \<Longrightarrow> \<exists>d. Direction_of event = Some d"
  by (auto simp: recognized_def Direction_of_def)

lemma change_direction_flag_set: "direction_changed s \<Longrightarrow> change_direction s d = s"
  by (simp add: change_direction_def)

lemma change_direction_sets_flag: "direction_changed (change_direction s d)"
  by (simp add: change_direction_def)

lemma event_received_flag_set: "direction_changed s \<Longrightarrow> event_received s event = s"
  by (simp add: event_received_def change_direction_flag_set split: option.splits)

lemma events_received_flag_set: "direction_changed s \<Longrightarrow> events_received s events = s"
  unfolding events_received_def
  by (induction events) (simp_all add: event_received_flag_set)

text \<open>
  C4. Whatever the current and the requested heading, the heading after
  \<open>change_direction\<close> is the requested one only when the per-tick flag is clear and the
  request is not in the axis pair of the current heading, and the current heading
  otherwise; so a request for the opposite heading and a request for the current
  heading both leave the heading as it is.
\<close>

theorem change_direction_axis_guard:
  "direction (change_direction s nd) =
     (if \<not> direction_changed s \<and> \<not> same_axis nd (direction s) then nd else direction s)
   \<and> direction (change_direction s (opposite (direction s))) = direction s
   \<and> direction (change_direction s (direction s)) = direction s"
  by (cases nd; cases "direction s") (simp_all add: change_direction_def same_axis_def)

theorem change_direction_axis_guard_witness:
  "direction (change_direction demo UP) = UP
   \<and> direction (change_direction demo LEFT) = RIGHT
   \<and> direction (change_direction demo RIGHT) = RIGHT"
  using change_direction_axis_guard [of demo UP] change_direction_axis_guard [of demo LEFT]
  by (simp add: demo_def same_axis_def)

lemma events_received_Cons:
  "events_received s (e # es) = events_received (event_received s e) es"
  by (simp add: events_received_def)

lemma events_received_first_recognized:
  "\<not> direction_changed s \<Longrightarrow>
   events_received s events =
     (case filter recognized events of [] \<Rightarrow> s | e # _ \<Rightarrow> event_received s e)"
proof (induction events)
  case Nil
  then show ?case by (simp add: events_received_def)
next
  case (Cons e es)
  show ?case
  proof (cases "recognized e")
    case True
    then obtain d where d: "Direction_of e = Some d"
      using Direction_of_recognized by blast
    then have "direction_changed (event_received s e)"
      by (simp add: event_received_def change_direction_sets_flag)
    then have "events_received (event_received s e) es = event_received s e"
      by (rule events_received_flag_set)
    with True show ?thesis by (simp add: events_received_Cons)
  next
    case False
    then have "event_received s e = s"
      by (simp add: event_received_def Direction_of_unrecognized)
    with False Cons show ?thesis by (simp add: events_received_Cons)
  qed
qed

text \<open>
  C5. A \<open>change_direction\<close> call made while the per-tick flag is set changes nothing,
  and a call made while it is clear leaves the flag set whether or not the axis guard
  let the heading change. So of the events delivered after a flag clear, only the first
  recognized one has an effect: the state after all of them is the state after that one
  alone, and the heading differs from the old one at most by that single request.
\<close>

theorem direction_change_debounce:
  "(direction_changed s \<longrightarrow> change_direction s d = s \<and> events_received s events = s)
   \<and> direction_changed (change_direction s d)
   \<and> (\<not> direction_changed s \<longrightarrow>
        events_received s events =
          (case filter recognized events of [] \<Rightarrow> s | e # _ \<Rightarrow> event_received s e))"
  by (simp add: change_direction_flag_set events_received_flag_set
      change_direction_sets_flag events_received_first_recognized)

theorem direction_change_debounce_witness:
  "direction (events_received demo [-1, KEY_UP, KEY_LEFT, KEY_DOWN]) = UP
   \<and> direction (change_direction (change_direction demo UP) LEFT) = UP
   \<and> direction_changed (change_direction demo LEFT)"
  using direction_change_debounce [of demo UP "[-1, KEY_UP, KEY_LEFT, KEY_DOWN]"]
    direction_change_debounce [of "change_direction demo UP" LEFT "[]"]
    direction_change_debounce [of demo LEFT "[]"]
  by (simp add: demo_def recognized_def event_received_def Direction_of_def
      change_direction_def KEY_UP_def KEY_LEFT_def KEY_DOWN_def KEY_RIGHT_def)

text \<open>
  C8. An input code that is none of the four arrow-key codes, the \<open>-1\<close> that
  \<open>getch\<close> returns when no input is available among them, leaves the whole state as it
  was: heading, per-tick flag, segments, field, score and mouse. The model's
  \<open>event_received\<close> has no raising branch, as the source catches the \<open>ValueError\<close>.
\<close>

theorem event_received_unrecognized:
  "event \<notin> {KEY_LEFT, KEY_RIGHT, KEY_UP, KEY_DOWN} \<Longrightarrow> event_received s event = s"
  by (simp add: event_received_def Direction_of_def)

theorem event_received_unrecognized_witness:
  "(-1) \<notin> {KEY_LEFT, KEY_RIGHT, KEY_UP, KEY_DOWN} \<and> event_received demo (-1) = demo"
proof -
  have h: "(-1) \<notin> {KEY_LEFT, KEY_RIGHT, KEY_UP, KEY_DOWN}"
    by (simp add: KEY_UP_def KEY_LEFT_def KEY_DOWN_def KEY_RIGHT_def)
  show ?thesis using h event_received_unrecognized [OF h, of demo] by simp
qed

section \<open>Reading and writing cells\<close>

lemma py_index_nonneg: "0 \<le> i \<Longrightarrow> i < int (length xs) \<Longrightarrow> py_index xs i = Some (nat i)"
  by (simp add: py_index_def)

lemma in_grid_positions: "p \<in> set (grid_positions f) \<longleftrightarrow> in_grid f p"
  by (cases p) (auto simp: grid_positions_def in_grid_def)

lemma occupied_iff:
  "p \<in> occupied f \<longleftrightarrow> in_grid f p \<and> get_cell (cells f) (fst p) (snd p) = Some True"
  by (auto simp: occupied_def in_grid_positions)

lemma border_cells_iff: "p \<in> border_cells f \<longleftrightarrow> in_border (height f) (width f) p"
  by (auto simp: border_cells_def in_grid_positions in_border_def in_grid_def)

lemma wf_row_length:
  "wf_field f \<Longrightarrow> 0 \<le> y \<Longrightarrow> y < height f \<Longrightarrow> length (cells f ! nat y) = nat (width f)"
  by (simp add: wf_field_def list_all_length)

lemma get_cell_in_grid:
  "wf_field f \<Longrightarrow> in_grid f p \<Longrightarrow>
   get_cell (cells f) (fst p) (snd p) = Some (cells f ! nat (fst p) ! nat (snd p))"
  by (simp add: get_cell_def in_grid_def py_index_nonneg wf_row_length wf_field_def)

lemma set_cell_in_grid:
  "wf_field f \<Longrightarrow> in_grid f p \<Longrightarrow>
   set_cell (cells f) (fst p) (snd p) v
     = Some ((cells f)[nat (fst p) := (cells f ! nat (fst p))[nat (snd p) := v]])"
  by (simp add: set_cell_def in_grid_def py_index_nonneg wf_row_length wf_field_def)

lemma wf_field_update:
  assumes "wf_field f"
  shows "wf_field (f\<lparr>cells := (cells f)[r := (cells f ! r)[c := v]]\<rparr>)"
proof (cases "r < length (cells f)")
  case True
  with assms show ?thesis
    by (auto simp: wf_field_def list_all_length nth_list_update)
next
  case False
  then have "(cells f)[r := (cells f ! r)[c := v]] = cells f"
    by (simp add: list_update_beyond)
  with assms show ?thesis by (simp add: wf_field_def)
qed

lemma get_cell_update:
  assumes "wf_field f" "in_grid f p" "in_grid f q"
  shows "get_cell ((cells f)[nat (fst p) := (cells f ! nat (fst p))[nat (snd p) := v]]) (fst q) (snd q)
         = (if q = p then Some v else get_cell (cells f) (fst q) (snd q))"
proof -
  let ?f' = "f\<lparr>cells := (cells f)[nat (fst p) := (cells f ! nat (fst p))[nat (snd p) := v]]\<rparr>"
  have wf': "wf_field ?f'" using assms(1) by (rule wf_field_update)
  have g': "in_grid ?f' q" using assms(3) by (simp add: in_grid_def)
  have "get_cell (cells ?f') (fst q) (snd q) = Some (cells ?f' ! nat (fst q) ! nat (snd q))"
    using wf' g' by (rule get_cell_in_grid)
  moreover have "get_cell (cells f) (fst q) (snd q) = Some (cells f ! nat (fst q) ! nat (snd q))"
    using assms(1,3) by (rule get_cell_in_grid)
  moreover have "nat (fst q) < length (cells f)" "nat (snd q) < length (cells f ! nat (fst q))"
    using assms(1,3) by (simp_all add: in_grid_def wf_field_def wf_row_length)
  moreover have "q = p \<longleftrightarrow> nat (fst q) = nat (fst p) \<and> nat (snd q) = nat (snd p)"
    using assms(2,3) by (cases p; cases q) (auto simp: in_grid_def)
  moreover have "nat (fst p) < length (cells f)" "nat (snd p) < length (cells f ! nat (fst p))"
    using assms(1,2) by (simp_all add: in_grid_def wf_field_def wf_row_length)
  ultimately show ?thesis
    by (cases "nat (fst q) = nat (fst p)") (simp_all add: nth_list_update)
qed

lemma in_grid_cells_update [simp]: "in_grid (f\<lparr>cells := cs\<rparr>) = in_grid f"
  by (simp add: fun_eq_iff in_grid_def)

lemma interior_cells_update [simp]: "interior (f\<lparr>cells := cs\<rparr>) = interior f"
  by (simp add: fun_eq_iff interior_def)

lemma border_cells_update [simp]: "border_cells (f\<lparr>cells := cs\<rparr>) = border_cells f"
  by (simp add: border_cells_def grid_positions_def)

lemma interior_in_grid: "interior f p \<Longrightarrow> in_grid f p"
  by (simp add: interior_def in_grid_def)

lemma interior_not_border: "interior f p \<Longrightarrow> p \<notin> border_cells f"
  by (simp add: border_cells_iff interior_def in_border_def)

lemma set_cell_occupied:
  assumes "wf_field f" "in_grid f p"
  shows "\<exists>cs'. set_cell (cells f) (fst p) (snd p) v = Some cs'
           \<and> wf_field (f\<lparr>cells := cs'\<rparr>)
           \<and> occupied (f\<lparr>cells := cs'\<rparr>) = (if v then insert p (occupied f) else occupied f - {p})"
proof -
  let ?cs = "(cells f)[nat (fst p) := (cells f ! nat (fst p))[nat (snd p) := v]]"
  have 1: "set_cell (cells f) (fst p) (snd p) v = Some ?cs"
    using assms by (rule set_cell_in_grid)
  have 2: "wf_field (f\<lparr>cells := ?cs\<rparr>)"
    using assms(1) by (rule wf_field_update)
  have 3: "q \<in> occupied (f\<lparr>cells := ?cs\<rparr>) \<longleftrightarrow> q \<in> (if v then insert p (occupied f) else occupied f - {p})" for q
  proof (cases "in_grid f q")
    case True
    then show ?thesis
      using get_cell_update [OF assms True, of v] assms(2)
      by (simp add: occupied_iff)
  next
    case False
    with assms(2) show ?thesis by (auto simp: occupied_iff)
  qed
  from 3 have "occupied (f\<lparr>cells := ?cs\<rparr>) = (if v then insert p (occupied f) else occupied f - {p})"
    by blast
  with 1 2 show ?thesis by blast
qed

lemma set_cell_None_iff: "set_cell cs y x v = None \<longleftrightarrow> get_cell cs y x = None"
  by (simp add: set_cell_def get_cell_def split: option.splits)

lemma mark_all_occupied:
  "wf_field f \<Longrightarrow> list_all (in_grid f) ps \<Longrightarrow>
   \<exists>cs'. mark_all (cells f) ps = Some cs' \<and> wf_field (f\<lparr>cells := cs'\<rparr>)
         \<and> occupied (f\<lparr>cells := cs'\<rparr>) = occupied f \<union> set ps"
proof (induction ps arbitrary: f)
  case Nil
  then show ?case by simp
next
  case (Cons p ps)
  then have g: "in_grid f p" and gs: "list_all (in_grid f) ps" by simp_all
  obtain cs1 where c1: "set_cell (cells f) (fst p) (snd p) True = Some cs1"
    and w1: "wf_field (f\<lparr>cells := cs1\<rparr>)"
    and o1: "occupied (f\<lparr>cells := cs1\<rparr>) = insert p (occupied f)"
    using set_cell_occupied [OF Cons.prems(1) g, of True] by auto
  from gs have "list_all (in_grid (f\<lparr>cells := cs1\<rparr>)) ps" by simp
  from Cons.IH [OF w1 this] obtain cs' where
    "mark_all cs1 ps = Some cs'" "wf_field (f\<lparr>cells := cs'\<rparr>)"
    "occupied (f\<lparr>cells := cs'\<rparr>) = occupied (f\<lparr>cells := cs1\<rparr>) \<union> set ps"
    by auto
  with c1 o1 show ?case by (cases p) auto
qed

lemma collect_free_in_grid:
  "wf_field f \<Longrightarrow> list_all (in_grid f) ps \<Longrightarrow>
   collect_free (cells f) ps acc = Inr (acc @ filter (\<lambda>p. p \<notin> occupied f) ps)"
proof (induction ps arbitrary: acc)
  case Nil
  then show ?case by simp
next
  case (Cons p ps)
  obtain y x where p: "p = (y, x)" by (cases p)
  from Cons.prems have g: "in_grid f (y, x)" by (simp add: p)
  have "get_cell (cells f) y x = Some ((y, x) \<in> occupied f)"
    using get_cell_in_grid [OF Cons.prems(1) g] g by (auto simp: occupied_iff)
  with Cons show ?case by (simp add: p)
qed

lemma scanned_interior: "p \<in> set (scanned f) \<Longrightarrow> interior f p"
  by (cases p) (auto simp: scanned_def interior_def)

lemma scanned_in_grid: "list_all (in_grid f) (scanned f)"
  by (simp add: list_all_iff scanned_interior interior_in_grid)

lemma free_cells_of_wf:
  "wf_field f \<Longrightarrow> free_cells_of f = Inr (filter (\<lambda>p. p \<notin> occupied f) (scanned f))"
  using collect_free_in_grid [OF _ scanned_in_grid, of f "[]"]
  by (simp add: free_cells_of_def)

lemma get_free_cell_wf:
  "wf_field f \<Longrightarrow>
   get_free_cell f r =
     (if filter (\<lambda>p. p \<notin> occupied f) (scanned f) = [] then Inl (GameOver ''win'')
      else Inr (filter (\<lambda>p. p \<notin> occupied f) (scanned f)
                 ! (r mod length (filter (\<lambda>p. p \<notin> occupied f) (scanned f)))))"
  by (simp add: get_free_cell_def free_cells_of_wf)

lemma get_free_cell_Inr:
  assumes "wf_field f" "get_free_cell f r = Inr p"
  shows "p \<in> set (scanned f) \<and> p \<notin> occupied f"
proof -
  let ?fc = "filter (\<lambda>p. p \<notin> occupied f) (scanned f)"
  from assms have ne: "?fc \<noteq> []" and p: "p = ?fc ! (r mod length ?fc)"
    by (auto simp: get_free_cell_wf split: if_splits)
  from ne have "r mod length ?fc < length ?fc" by simp
  then have "?fc ! (r mod length ?fc) \<in> set ?fc" by (rule nth_mem)
  with p show ?thesis by simp
qed

section \<open>The search for a free cell\<close>

lemma get_free_cell_win_iff:
  "wf_field f \<Longrightarrow>
   get_free_cell f r = Inl (GameOver ''win'') \<longleftrightarrow> (\<forall>p \<in> set (scanned f). p \<in> occupied f)"
  by (auto simp: get_free_cell_wf filter_empty_conv)

lemma ring_4_4:
  "Border_init 4 4 (GameField_init 4 4)
     = Inr \<lparr>cells = [[True, True, True, True], [True, False, False, True],
                     [True, False, False, True], [True, True, True, True]],
            width = 4, height = 4\<rparr>"
  by code_simp

lemma ring_4_4_free:
  "free_cells_of \<lparr>cells = [[True, True, True, True], [True, False, False, True],
                           [True, False, False, True], [True, True, True, True]],
                  width = 4, height = 4\<rparr> = Inr [(1, 1)]"
  by code_simp

lemma ring_4_4_mark:
  "set_cell [[True, True, True, True], [True, False, False, True],
             [True, False, False, True], [True, True, True, True]] 1 1 True
     = Some (cells small_field)"
  by code_simp

lemma ring_4_4_snake:
  "Snake_init \<lparr>cells = [[True, True, True, True], [True, False, False, True],
                        [True, False, False, True], [True, True, True, True]],
               width = 4, height = 4\<rparr> [] 0 r
   = Inr \<lparr>direction = RIGHT, direction_changed = False, snake_elements = [(1, 1)],
          game_field = small_field, score = 0, mice = []\<rparr>"
  by (simp add: Snake_init_def get_free_cell_def ring_4_4_free ring_4_4_mark small_field_def)

lemma small_field_free: "free_cells_of small_field = Inr []"
  by code_simp

lemma small_field_interior:
  "interior small_field (2, 2) \<and> (2, 2) \<notin> occupied small_field"
  by code_simp

lemma crowded_field_free: "free_cells_of crowded_field = Inr []"
  by code_simp

lemma crowded_field_interior:
  "interior crowded_field (6, 24) \<and> (6, 24) \<notin> occupied crowded_field"
  by code_simp

text \<open>
  C2. \<open>get_free_cell\<close> is to look at every cell inside the border ring and to raise
  \<open>GameOver('win')\<close> only when none of them is free. Its loops run over
  \<open>range(1, height - 2)\<close> and \<open>range(1, width - 2)\<close>, which leave out the last row and
  the last column inside the ring. On the 4 by 4 field that \<open>Border\<close> and \<open>Snake\<close>
  set up, and on a field of the size of \<open>main\<close> whose first five rows and 23 columns
  inside the ring are full, it raises the win although a cell inside the ring is free;
  with the first one the set-up of a 4 by 4 game ends in that win.
\<close>

theorem get_free_cell_win_despite_free_cell:
  "get_free_cell small_field r = Inl (GameOver ''win'')
   \<and> interior small_field (2, 2) \<and> (2, 2) \<notin> occupied small_field
   \<and> new_game 4 4 r1 r2 = Inl (GameOver ''win'')
   \<and> get_free_cell crowded_field r = Inl (GameOver ''win'')
   \<and> interior crowded_field (6, 24) \<and> (6, 24) \<notin> occupied crowded_field"
proof -
  have 1: "get_free_cell small_field k = Inl (GameOver ''win'')" for k
    by (simp add: get_free_cell_def small_field_free)
  have 2: "get_free_cell crowded_field r = Inl (GameOver ''win'')"
    by (simp add: get_free_cell_def crowded_field_free)
  have 3: "new_game 4 4 r1 r2 = Inl (GameOver ''win'')"
    by (simp add: new_game_def ring_4_4 ring_4_4_snake 1)
  from 1 2 3 small_field_interior crowded_field_interior show ?thesis by blast
qed

section \<open>Moving the snake\<close>

lemma game_field_put_cells [simp]: "game_field (put_cells s cs) = (game_field s)\<lparr>cells := cs\<rparr>"
  by (simp add: put_cells_def)

lemma snake_elements_put_cells [simp]: "snake_elements (put_cells s cs) = snake_elements s"
  by (simp add: put_cells_def)

lemma direction_put_cells [simp]: "direction (put_cells s cs) = direction s"
  by (simp add: put_cells_def)

lemma mice_put_cells [simp]: "mice (put_cells s cs) = mice s"
  by (simp add: put_cells_def)

lemma score_put_cells [simp]: "score (put_cells s cs) = score s"
  by (simp add: put_cells_def)

lemma move_tail_loop_in_grid:
  "wf_field f \<Longrightarrow> in_grid f prev \<Longrightarrow> list_all (in_grid f) es \<Longrightarrow>
   \<exists>cs'. move_tail_loop prev es (cells f) = (True, butlast (prev # es), cs', last (prev # es))
         \<and> wf_field (f\<lparr>cells := cs'\<rparr>)
         \<and> occupied (f\<lparr>cells := cs'\<rparr>) = occupied f \<union> set (butlast (prev # es))"
proof (induction es arbitrary: prev f)
  case Nil
  then show ?case by simp
next
  case (Cons e es)
  then have ge: "in_grid f e" and ges: "list_all (in_grid f) es" by simp_all
  obtain cs1 where c1: "set_cell (cells f) (fst prev) (snd prev) True = Some cs1"
    and w1: "wf_field (f\<lparr>cells := cs1\<rparr>)"
    and o1: "occupied (f\<lparr>cells := cs1\<rparr>) = insert prev (occupied f)"
    using set_cell_occupied [OF Cons.prems(1,2), of True] by auto
  from ge ges have "in_grid (f\<lparr>cells := cs1\<rparr>) e" "list_all (in_grid (f\<lparr>cells := cs1\<rparr>)) es"
    by simp_all
  from Cons.IH [OF w1 this] obtain cs' where
    l: "move_tail_loop e es cs1 = (True, butlast (e # es), cs', last (e # es))"
    and w: "wf_field (f\<lparr>cells := cs'\<rparr>)"
    and o: "occupied (f\<lparr>cells := cs'\<rparr>) = occupied (f\<lparr>cells := cs1\<rparr>) \<union> set (butlast (e # es))"
    by auto
  from c1 l w o o1 show ?case by auto
qed

lemma move_tail_in_grid:
  assumes "wf_field (game_field s)" "snake_elements s = h # t"
    "list_all (in_grid (game_field s)) (h # t)"
  shows "\<exists>cs'. move_tail s = Done (put_cells (s\<lparr>snake_elements := h # butlast (h # t)\<rparr>) cs')
           \<and> wf_field ((game_field s)\<lparr>cells := cs'\<rparr>)
           \<and> occupied ((game_field s)\<lparr>cells := cs'\<rparr>)
               = (occupied (game_field s) \<union> set (butlast (h # t))) - {last (h # t)}"
proof -
  let ?f = "game_field s"
  from assms(3) have gh: "in_grid ?f h" and gt: "list_all (in_grid ?f) t" by simp_all
  from move_tail_loop_in_grid [OF assms(1) gh gt] obtain cs1 where
    l: "move_tail_loop h t (cells ?f) = (True, butlast (h # t), cs1, last (h # t))"
    and w1: "wf_field (?f\<lparr>cells := cs1\<rparr>)"
    and o1: "occupied (?f\<lparr>cells := cs1\<rparr>) = occupied ?f \<union> set (butlast (h # t))"
    by auto
  have "last (h # t) \<in> set (h # t)" by (rule last_in_set) simp
  with assms(3) have gl: "in_grid (?f\<lparr>cells := cs1\<rparr>) (last (h # t))"
    by (simp add: list_all_iff)
  from set_cell_occupied [OF w1 gl, of False] obtain cs' where
    c: "set_cell cs1 (fst (last (h # t))) (snd (last (h # t))) False = Some cs'"
    and w: "wf_field (?f\<lparr>cells := cs'\<rparr>)"
    and o: "occupied (?f\<lparr>cells := cs'\<rparr>) = occupied (?f\<lparr>cells := cs1\<rparr>) - {last (h # t)}"
    by auto
  have "move_tail s = Done (put_cells (s\<lparr>snake_elements := h # butlast (h # t)\<rparr>) cs')"
    using assms(2) l c by (simp add: move_tail_def)
  with w o o1 show ?thesis by auto
qed

lemma move_head_eq:
  assumes "snake_elements s = h # rest"
  shows "move_head s =
     (case get_cell (cells (game_field s)) (fst (ahead (direction s) h)) (snd (ahead (direction s) h)) of
        None \<Rightarrow> Raised IndexError s
      | Some b \<Rightarrow>
          if b then Raised (GameOver (bumped (direction s))) s
          else (case set_cell (cells (game_field s)) (fst (ahead (direction s) h))
                       (snd (ahead (direction s) h)) True of
                  None \<Rightarrow> Raised IndexError (s\<lparr>snake_elements := ahead (direction s) h # rest\<rparr>)
                | Some cs' \<Rightarrow> Done (put_cells (s\<lparr>snake_elements := ahead (direction s) h # rest\<rparr>) cs')))"
  using assms
  by (cases h; cases "direction s")
     (simp_all add: move_head_def move_right_def move_left_def move_up_def move_down_def
        mark_head_def put_cells_def split: option.splits)

lemma main_game_kickoff: "main_game 0 0 = Inr kickoff"
  by code_simp

lemma action_kickoff: "action kickoff 1 = Done fed"
  by code_simp

lemma play_coiled: "play kickoff coiled_plays = Done coiled"
  by code_simp

lemma move_coiled: "move coiled = Done (coiled\<lparr>snake_elements := [(1, 6), (2, 6), (2, 7), (1, 7)]\<rparr>)"
  by code_simp

lemma in_grid_not_border_interior: "in_grid f p \<Longrightarrow> p \<notin> border_cells f \<Longrightarrow> interior f p"
  by (auto simp: border_cells_iff in_border_def interior_def in_grid_def)

lemma interior_ahead_in_grid: "interior f p \<Longrightarrow> in_grid f (ahead d p)"
  by (cases p; cases d) (simp_all add: interior_def in_grid_def)

lemma move_head_in_grid:
  assumes "wf_field (game_field s)" "snake_elements s = h # rest"
    "in_grid (game_field s) (ahead (direction s) h)"
  shows "\<exists>cs'. wf_field ((game_field s)\<lparr>cells := cs'\<rparr>)
          \<and> occupied ((game_field s)\<lparr>cells := cs'\<rparr>)
              = insert (ahead (direction s) h) (occupied (game_field s))
          \<and> move_head s =
              (if ahead (direction s) h \<in> occupied (game_field s)
               then Raised (GameOver (bumped (direction s))) s
               else Done (put_cells (s\<lparr>snake_elements := ahead (direction s) h # rest\<rparr>) cs'))"
proof -
  let ?f = "game_field s" and ?d = "ahead (direction s) h"
  from set_cell_occupied [OF assms(1,3), of True] obtain cs' where
    c: "set_cell (cells ?f) (fst ?d) (snd ?d) True = Some cs'"
    and w: "wf_field (?f\<lparr>cells := cs'\<rparr>)"
    and o: "occupied (?f\<lparr>cells := cs'\<rparr>) = insert ?d (occupied ?f)"
    by auto
  have g: "get_cell (cells ?f) (fst ?d) (snd ?d) = Some (?d \<in> occupied ?f)"
    using get_cell_in_grid [OF assms(1,3)] assms(3) by (auto simp: occupied_iff)
  have "move_head s =
          (if ?d \<in> occupied ?f then Raised (GameOver (bumped (direction s))) s
           else Done (put_cells (s\<lparr>snake_elements := ?d # rest\<rparr>) cs'))"
    by (simp add: move_head_eq [OF assms(2)] g c)
  with w o show ?thesis by blast
qed

text \<open>
  C3. Whatever the head's position and the heading, \<open>_move_head\<close> raises
  \<open>GameOver\<close> exactly when the cell ahead, as the grid lookup reads it, is marked, and
  then with the cause \<open>bumped\<close> followed by the heading and with nothing changed; which
  segment or wall marked the cell plays no part. When the cell ahead is free the head
  moves onto it, one cell in the heading, and that cell is marked. For a cell ahead
  that lies on the grid, being marked is membership in the set of occupied cells.
\<close>

theorem move_head_collision:
  assumes "snake_elements s = h # rest"
  shows "(move_head s = Raised (GameOver (bumped (direction s))) s
            \<longleftrightarrow> get_cell (cells (game_field s)) (fst (ahead (direction s) h))
                  (snd (ahead (direction s) h)) = Some True)
       \<and> ((\<exists>e s'. move_head s = Raised (GameOver e) s')
            \<longleftrightarrow> get_cell (cells (game_field s)) (fst (ahead (direction s) h))
                  (snd (ahead (direction s) h)) = Some True)
       \<and> (get_cell (cells (game_field s)) (fst (ahead (direction s) h))
             (snd (ahead (direction s) h)) = Some False
            \<longrightarrow> (\<exists>cs'. set_cell (cells (game_field s)) (fst (ahead (direction s) h))
                         (snd (ahead (direction s) h)) True = Some cs'
                     \<and> move_head s
                         = Done (put_cells (s\<lparr>snake_elements := ahead (direction s) h # rest\<rparr>) cs')))
       \<and> (wf_field (game_field s) \<and> in_grid (game_field s) (ahead (direction s) h)
            \<longrightarrow> (get_cell (cells (game_field s)) (fst (ahead (direction s) h))
                   (snd (ahead (direction s) h)) = Some True
                 \<longleftrightarrow> ahead (direction s) h \<in> occupied (game_field s)))"
proof -
  let ?d = "ahead (direction s) h"
  let ?g = "get_cell (cells (game_field s)) (fst ?d) (snd ?d)"
  have 1: "move_head s = Raised (GameOver (bumped (direction s))) s \<longleftrightarrow> ?g = Some True"
    by (auto simp: move_head_eq [OF assms] split: option.splits)
  have 2: "(\<exists>e s'. move_head s = Raised (GameOver e) s') \<longleftrightarrow> ?g = Some True"
    by (auto simp: move_head_eq [OF assms] split: option.splits)
  have 3: "?g = Some False \<longrightarrow>
            (\<exists>cs'. set_cell (cells (game_field s)) (fst ?d) (snd ?d) True = Some cs'
               \<and> move_head s = Done (put_cells (s\<lparr>snake_elements := ?d # rest\<rparr>) cs'))"
  proof
    assume g: "?g = Some False"
    then have "set_cell (cells (game_field s)) (fst ?d) (snd ?d) True \<noteq> None"
      by (simp add: set_cell_None_iff)
    then obtain cs' where "set_cell (cells (game_field s)) (fst ?d) (snd ?d) True = Some cs'"
      by blast
    with g show "\<exists>cs'. set_cell (cells (game_field s)) (fst ?d) (snd ?d) True = Some cs'
               \<and> move_head s = Done (put_cells (s\<lparr>snake_elements := ?d # rest\<rparr>) cs')"
      by (simp add: move_head_eq [OF assms])
  qed
  have 4: "wf_field (game_field s) \<and> in_grid (game_field s) ?d
            \<longrightarrow> (?g = Some True \<longleftrightarrow> ?d \<in> occupied (game_field s))"
    by (simp add: occupied_iff)
  from 1 2 3 4 show ?thesis by blast
qed

theorem move_head_collision_witness:
  "move_head tiny
     = Done (tiny\<lparr>snake_elements := [(1, 2)],
                 game_field := small_field\<lparr>cells := [[True, True, True, True],
                                                     [True, True, True, True],
                                                     [True, False, False, True],
                                                     [True, True, True, True]]\<rparr>\<rparr>)
   \<and> move_head (tiny\<lparr>direction := LEFT\<rparr>) = Raised (GameOver ''bumped left'') (tiny\<lparr>direction := LEFT\<rparr>)
   \<and> move_head (tiny\<lparr>direction := UP\<rparr>) = Raised (GameOver ''bumped up'') (tiny\<lparr>direction := UP\<rparr>)
   \<and> move_head (tiny\<lparr>direction := DOWN, snake_elements := [(1, 2), (2, 2)],
                    game_field := small_field\<lparr>cells := [[True, True, True, True],
                                                     [True, False, True, True],
                                                     [True, False, True, True],
                                                     [True, True, True, True]]\<rparr>\<rparr>)
       = Raised (GameOver ''bumped down'')
           (tiny\<lparr>direction := DOWN, snake_elements := [(1, 2), (2, 2)],
                    game_field := small_field\<lparr>cells := [[True, True, True, True],
                                                     [True, False, True, True],
                                                     [True, False, True, True],
                                                     [True, True, True, True]]\<rparr>\<rparr>)"
  using move_head_collision [of tiny "(1, 1)" "[]"]
    move_head_collision [of "tiny\<lparr>direction := LEFT\<rparr>" "(1, 1)" "[]"]
    move_head_collision [of "tiny\<lparr>direction := UP\<rparr>" "(1, 1)" "[]"]
    move_head_collision [of "tiny\<lparr>direction := DOWN, snake_elements := [(1, 2), (2, 2)],
                    game_field := small_field\<lparr>cells := [[True, True, True, True],
                                                     [True, False, True, True],
                                                     [True, False, True, True],
                                                     [True, True, True, True]]\<rparr>\<rparr>" "(1, 2)" "[(2, 2)]"]
  by (simp add: tiny_def small_field_def get_cell_def set_cell_def py_index_def put_cells_def)

section \<open>The occupancy invariant\<close>

lemma put_cells_twice [simp]: "put_cells (put_cells s cs) cs' = put_cells s cs'"
  by (simp add: put_cells_def)

lemma put_cells_snake_elements:
  "(put_cells s cs)\<lparr>snake_elements := xs\<rparr> = put_cells (s\<lparr>snake_elements := xs\<rparr>) cs"
  by (simp add: put_cells_def)

lemma butlast_last_set: "xs \<noteq> [] \<Longrightarrow> set xs = insert (last xs) (set (butlast xs))"
  by (induction xs) auto

lemma distinct_last_butlast: "distinct xs \<Longrightarrow> xs \<noteq> [] \<Longrightarrow> last xs \<notin> set (butlast xs)"
  by (induction xs) auto

lemma move_from_inv:
  assumes "snake_inv s" "snake_elements s = h # t"
  shows "\<exists>cs1 cs'.
      move_tail s = Done (put_cells (s\<lparr>snake_elements := h # butlast (h # t)\<rparr>) cs1)
    \<and> wf_field ((game_field s)\<lparr>cells := cs1\<rparr>)
    \<and> occupied ((game_field s)\<lparr>cells := cs1\<rparr>)
        = border_cells (game_field s) \<union> set (butlast (h # t))
    \<and> wf_field ((game_field s)\<lparr>cells := cs'\<rparr>)
    \<and> occupied ((game_field s)\<lparr>cells := cs'\<rparr>)
        = insert (ahead (direction s) h) (border_cells (game_field s) \<union> set (butlast (h # t)))
    \<and> move s =
        (if ahead (direction s) h \<in> border_cells (game_field s) \<union> set (butlast (h # t))
         then Raised (GameOver (bumped (direction s)))
                (put_cells (s\<lparr>snake_elements := h # butlast (h # t)\<rparr>) cs1)
         else Done (put_cells (s\<lparr>snake_elements := ahead (direction s) h # butlast (h # t)\<rparr>) cs'))"
proof -
  let ?f = "game_field s" and ?d = "ahead (direction s) h"
  from assms have wf: "wf_field ?f" and dist: "distinct (h # t)"
    and int: "list_all (interior ?f) (h # t)"
    and occ: "occupied ?f = border_cells ?f \<union> set (h # t)"
    by (simp_all add: snake_inv_def)
  from int have grid: "list_all (in_grid ?f) (h # t)"
    by (auto simp: list_all_iff interior_in_grid)
  from move_tail_in_grid [OF wf assms(2) grid] obtain cs1 where
    mt: "move_tail s = Done (put_cells (s\<lparr>snake_elements := h # butlast (h # t)\<rparr>) cs1)"
    and w1: "wf_field (?f\<lparr>cells := cs1\<rparr>)"
    and o1: "occupied (?f\<lparr>cells := cs1\<rparr>) = (occupied ?f \<union> set (butlast (h # t))) - {last (h # t)}"
    by blast
  have l1: "last (h # t) \<notin> set (butlast (h # t))"
    using dist by (intro distinct_last_butlast) simp_all
  have "last (h # t) \<in> set (h # t)" by (rule last_in_set) simp
  with int have "interior ?f (last (h # t))" by (simp add: list_all_iff)
  then have l2: "last (h # t) \<notin> border_cells ?f" by (rule interior_not_border)
  have l3: "set (h # t) = insert (last (h # t)) (set (butlast (h # t)))"
    by (rule butlast_last_set) simp
  have o1': "occupied (?f\<lparr>cells := cs1\<rparr>) = border_cells ?f \<union> set (butlast (h # t))"
    unfolding o1 occ l3 using l1 l2 by blast
  let ?s1 = "put_cells (s\<lparr>snake_elements := h # butlast (h # t)\<rparr>) cs1"
  from int have "interior ?f h" by simp
  then have gd: "in_grid ?f ?d" by (rule interior_ahead_in_grid)
  have "\<exists>cs'. wf_field ((game_field ?s1)\<lparr>cells := cs'\<rparr>)
          \<and> occupied ((game_field ?s1)\<lparr>cells := cs'\<rparr>)
              = insert (ahead (direction ?s1) h) (occupied (game_field ?s1))
          \<and> move_head ?s1 =
              (if ahead (direction ?s1) h \<in> occupied (game_field ?s1)
               then Raised (GameOver (bumped (direction ?s1))) ?s1
               else Done (put_cells (?s1\<lparr>snake_elements := ahead (direction ?s1) h # butlast (h # t)\<rparr>) cs'))"
    by (rule move_head_in_grid) (use w1 gd in \<open>simp_all del: butlast.simps\<close>)
  then obtain cs' where
    w': "wf_field (?f\<lparr>cells := cs'\<rparr>)"
    and o': "occupied (?f\<lparr>cells := cs'\<rparr>) = insert ?d (occupied (?f\<lparr>cells := cs1\<rparr>))"
    and mh: "move_head ?s1 =
              (if ?d \<in> occupied (?f\<lparr>cells := cs1\<rparr>)
               then Raised (GameOver (bumped (direction s))) ?s1
               else Done (put_cells (s\<lparr>snake_elements := ?d # butlast (h # t)\<rparr>) cs'))"
    by (auto simp: put_cells_snake_elements simp del: butlast.simps)
  have mv: "move s =
        (if ?d \<in> border_cells ?f \<union> set (butlast (h # t))
         then Raised (GameOver (bumped (direction s))) ?s1
         else Done (put_cells (s\<lparr>snake_elements := ?d # butlast (h # t)\<rparr>) cs'))"
    by (simp add: move_def mt mh o1' del: butlast.simps)
  note o'' = o' [unfolded o1']
  show ?thesis
    by (intro exI [of _ cs1] exI [of _ cs'] conjI) (fact mt w1 o1' w' o'' mv)+
qed

lemma bind_Done_iff: "bind m f = Done s' \<longleftrightarrow> (\<exists>s1. m = Done s1 \<and> f s1 = Done s')"
  by (cases m) auto

lemma move_Done_inv:
  assumes "snake_inv s" "move s = Done s'"
  shows "snake_inv s'
       \<and> (\<exists>h t. snake_elements s = h # t
              \<and> snake_elements s' = ahead (direction s) h # butlast (h # t))
       \<and> direction s' = direction s \<and> direction_changed s' = direction_changed s
       \<and> mice s' = mice s \<and> score s' = score s"
proof -
  from assms(1) obtain h t where ht: "snake_elements s = h # t"
    by (cases "snake_elements s") (auto simp: snake_inv_def)
  let ?f = "game_field s" and ?d = "ahead (direction s) h"
  from assms(1) ht have wf: "wf_field ?f" and dist: "distinct (h # t)"
    and int: "list_all (interior ?f) (h # t)"
    by (simp_all add: snake_inv_def)
  from move_from_inv [OF assms(1) ht] obtain cs1 cs' where
    w': "wf_field (?f\<lparr>cells := cs'\<rparr>)"
    and o': "occupied (?f\<lparr>cells := cs'\<rparr>) = insert ?d (border_cells ?f \<union> set (butlast (h # t)))"
    and mv: "move s =
        (if ?d \<in> border_cells ?f \<union> set (butlast (h # t))
         then Raised (GameOver (bumped (direction s)))
                (put_cells (s\<lparr>snake_elements := h # butlast (h # t)\<rparr>) cs1)
         else Done (put_cells (s\<lparr>snake_elements := ?d # butlast (h # t)\<rparr>) cs'))"
    by blast
  from mv assms(2) have free: "?d \<notin> border_cells ?f \<union> set (butlast (h # t))"
    and s': "s' = put_cells (s\<lparr>snake_elements := ?d # butlast (h # t)\<rparr>) cs'"
    by (auto split: if_splits)
  from int have "interior ?f h" by simp
  then have "in_grid ?f ?d" by (rule interior_ahead_in_grid)
  with free have id: "interior ?f ?d" by (simp add: in_grid_not_border_interior)
  have sub: "set (butlast (h # t)) \<subseteq> set (h # t)"
    by (auto dest: in_set_butlastD)
  with int have ib: "list_all (interior ?f) (butlast (h # t))"
    unfolding list_all_iff by blast
  from dist have db: "distinct (butlast (h # t))" by (rule distinct_butlast)
  have "snake_inv s'"
    unfolding snake_inv_def s' using w' o' free id ib db
    by (simp del: butlast.simps)
  then show ?thesis using ht s' by (simp add: put_cells_def del: butlast.simps)
qed

lemma grow_from_inv:
  assumes "snake_inv s" "snake_elements s = h # t"
  shows "\<exists>cs'. wf_field ((game_field s)\<lparr>cells := cs'\<rparr>)
          \<and> occupied ((game_field s)\<lparr>cells := cs'\<rparr>)
              = insert (ahead (direction s) h) (occupied (game_field s))
          \<and> grow s =
              (if ahead (direction s) h \<in> occupied (game_field s)
               then Raised (GameOver (bumped (direction s))) (s\<lparr>snake_elements := h # h # t\<rparr>)
               else Done (put_cells (s\<lparr>snake_elements := ahead (direction s) h # h # t\<rparr>) cs'))"
proof -
  let ?s = "s\<lparr>snake_elements := h # h # t\<rparr>"
  from assms have wf: "wf_field (game_field ?s)" and "interior (game_field s) h"
    by (simp_all add: snake_inv_def)
  then have g: "in_grid (game_field ?s) (ahead (direction ?s) h)"
    by (simp add: interior_ahead_in_grid)
  have e: "snake_elements ?s = h # h # t" by simp
  have gr: "grow s = move_head ?s"
    using assms(2) by (cases h) (simp add: grow_def)
  from move_head_in_grid [OF wf e g] obtain cs' where
    a: "wf_field ((game_field ?s)\<lparr>cells := cs'\<rparr>)"
      "occupied ((game_field ?s)\<lparr>cells := cs'\<rparr>)
         = insert (ahead (direction ?s) h) (occupied (game_field ?s))"
      "move_head ?s =
         (if ahead (direction ?s) h \<in> occupied (game_field ?s)
          then Raised (GameOver (bumped (direction ?s))) ?s
          else Done (put_cells (?s\<lparr>snake_elements := ahead (direction ?s) h # h # t\<rparr>) cs'))"
    by blast
  show ?thesis
    by (rule exI [of _ cs']) (use a gr in simp)
qed

lemma grow_Done_inv:
  assumes "snake_inv s" "grow s = Done s'"
  shows "snake_inv s'
       \<and> (\<exists>h t. snake_elements s = h # t
              \<and> snake_elements s' = ahead (direction s) h # h # t)
       \<and> direction s' = direction s \<and> direction_changed s' = direction_changed s
       \<and> mice s' = mice s \<and> score s' = score s"
proof -
  from assms(1) obtain h t where ht: "snake_elements s = h # t"
    by (cases "snake_elements s") (auto simp: snake_inv_def)
  let ?f = "game_field s" and ?d = "ahead (direction s) h"
  from assms(1) ht have dist: "distinct (h # t)"
    and int: "list_all (interior ?f) (h # t)"
    and occ: "occupied ?f = border_cells ?f \<union> set (h # t)"
    by (simp_all add: snake_inv_def)
  from grow_from_inv [OF assms(1) ht] obtain cs' where
    w': "wf_field (?f\<lparr>cells := cs'\<rparr>)"
    and o': "occupied (?f\<lparr>cells := cs'\<rparr>) = insert ?d (occupied ?f)"
    and gr: "grow s =
              (if ?d \<in> occupied ?f
               then Raised (GameOver (bumped (direction s))) (s\<lparr>snake_elements := h # h # t\<rparr>)
               else Done (put_cells (s\<lparr>snake_elements := ?d # h # t\<rparr>) cs'))"
    by blast
  from gr assms(2) have free: "?d \<notin> occupied ?f"
    and s': "s' = put_cells (s\<lparr>snake_elements := ?d # h # t\<rparr>) cs'"
    by (auto split: if_splits)
  from int have "interior ?f h" by simp
  then have "in_grid ?f ?d" by (rule interior_ahead_in_grid)
  with free occ have id: "interior ?f ?d" by (simp add: in_grid_not_border_interior)
  have "snake_inv s'"
    unfolding snake_inv_def s' using w' o' free id int dist occ
    by auto
  then show ?thesis using ht s' by (simp add: put_cells_def)
qed

lemma snake_inv_cong:
  "game_field s' = game_field s \<Longrightarrow> snake_elements s' = snake_elements s \<Longrightarrow>
   snake_inv s' = snake_inv s"
  by (simp add: snake_inv_def)

lemma event_received_inv: "snake_inv (event_received s ev) = snake_inv s"
  by (rule snake_inv_cong)
     (simp_all add: event_received_def change_direction_def split: option.splits)

lemma eat_Done:
  assumes "eat r s = Done s'"
  shows "\<exists>s2 m. grow s = Done s2 \<and> get_free_cell (game_field s2) r = Inr m
           \<and> s' = s2\<lparr>score := score s2 + 1, mice := [m]\<rparr>"
proof -
  from assms obtain s2 where g: "grow s = Done s2"
    and c: "(case get_free_cell (game_field s2) r of
               Inl e \<Rightarrow> Raised e (s2\<lparr>score := score s2 + 1, mice := []\<rparr>)
             | Inr m \<Rightarrow> Done (s2\<lparr>score := score s2 + 1, mice := [m]\<rparr>)) = Done s'"
    by (auto simp: eat_def bind_Done_iff)
  show ?thesis
  proof (cases "get_free_cell (game_field s2) r")
    case (Inl e)
    with c show ?thesis by simp
  next
    case (Inr m)
    with c g show ?thesis
      by (intro exI [of _ s2] exI [of _ m]) simp
  qed
qed

lemma action_Done:
  assumes "action s r = Done s'"
  shows "\<exists>s1 s3. move s = Done s1 \<and> s' = s3\<lparr>direction_changed := False\<rparr>
          \<and> ((mouse_under_head s1 = Inr False \<and> s3 = s1)
             \<or> (mouse_under_head s1 = Inr True \<and> eat r s1 = Done s3))"
proof -
  from assms obtain s1 s3 where mv: "move s = Done s1"
    and c: "(case mouse_under_head s1 of
               Inl e \<Rightarrow> Raised e s1
             | Inr eaten \<Rightarrow> if eaten then eat r s1 else Done s1) = Done s3"
    and s': "s' = s3\<lparr>direction_changed := False\<rparr>"
    unfolding action_def bind_Done_iff by blast
  have "(mouse_under_head s1 = Inr False \<and> s3 = s1)
         \<or> (mouse_under_head s1 = Inr True \<and> eat r s1 = Done s3)"
  proof (cases "mouse_under_head s1")
    case (Inl e)
    with c show ?thesis by simp
  next
    case (Inr eaten)
    with c show ?thesis by (cases eaten) simp_all
  qed
  with mv s' show ?thesis by blast
qed

lemma action_Done_inv:
  assumes "snake_inv s" "action s r = Done s'"
  shows "snake_inv s'"
proof -
  from action_Done [OF assms(2)] obtain s1 s3 where
    mv: "move s = Done s1" and s': "s' = s3\<lparr>direction_changed := False\<rparr>"
    and c: "(mouse_under_head s1 = Inr False \<and> s3 = s1)
             \<or> (mouse_under_head s1 = Inr True \<and> eat r s1 = Done s3)"
    by blast
  from move_Done_inv [OF assms(1) mv] have i1: "snake_inv s1" by blast
  have "snake_inv s3"
  proof (cases "mouse_under_head s1 = Inr True")
    case False
    with c i1 show ?thesis by auto
  next
    case True
    with c have "eat r s1 = Done s3" by auto
    from eat_Done [OF this] obtain s2 m where
      g: "grow s1 = Done s2" and s3: "s3 = s2\<lparr>score := score s2 + 1, mice := [m]\<rparr>"
      by blast
    from grow_Done_inv [OF i1 g] have "snake_inv s2" by blast
    then show ?thesis unfolding s3 by (simp add: snake_inv_def)
  qed
  then show ?thesis unfolding s' by (simp add: snake_inv_def)
qed

lemma wf_GameField_init: "wf_field (GameField_init w h)"
  by (simp add: wf_field_def GameField_init_def list_all_iff)

lemma occupied_GameField_init: "occupied (GameField_init w h) = {}"
proof -
  have "p \<notin> occupied (GameField_init w h)" for p
  proof
    assume a: "p \<in> occupied (GameField_init w h)"
    then have g: "in_grid (GameField_init w h) p" by (simp add: occupied_iff)
    then have "cells (GameField_init w h) ! nat (fst p) ! nat (snd p) = False"
      by (simp add: GameField_init_def in_grid_def)
    with get_cell_in_grid [OF wf_GameField_init g] a show False
      by (simp add: occupied_iff)
  qed
  then show ?thesis by blast
qed

lemma border_list_set:
  assumes "1 \<le> h" "1 \<le> w"
  shows "p \<in> set (border_list h w) \<longleftrightarrow> in_border h w p"
  using assms by (cases p) (auto simp: border_list_def in_border_def)

lemma Border_init_dims:
  "Border_init h w f0 = Inr f \<Longrightarrow> height f = height f0 \<and> width f = width f0"
  by (auto simp: Border_init_def split: option.splits)

lemma Border_init_ok:
  assumes "1 \<le> h" "1 \<le> w"
  shows "\<exists>f. Border_init h w (GameField_init w h) = Inr f \<and> wf_field f
            \<and> height f = h \<and> width f = w \<and> occupied f = border_cells f"
proof -
  let ?f0 = "GameField_init w h"
  have d: "height ?f0 = h" "width ?f0 = w" by (simp_all add: GameField_init_def)
  have "list_all (in_grid ?f0) (border_list h w)"
    unfolding list_all_iff using border_list_set [OF assms]
    by (auto simp: in_border_def in_grid_def d)
  from mark_all_occupied [OF wf_GameField_init this] obtain cs' where
    m: "mark_all (cells ?f0) (border_list h w) = Some cs'"
    and w: "wf_field (?f0\<lparr>cells := cs'\<rparr>)"
    and o: "occupied (?f0\<lparr>cells := cs'\<rparr>) = occupied ?f0 \<union> set (border_list h w)"
    by blast
  have "set (border_list h w) = border_cells (?f0\<lparr>cells := cs'\<rparr>)"
    using border_list_set [OF assms] by (auto simp: border_cells_iff d)
  with o have "occupied (?f0\<lparr>cells := cs'\<rparr>) = border_cells (?f0\<lparr>cells := cs'\<rparr>)"
    by (simp add: occupied_GameField_init)
  with m w d show ?thesis
    by (intro exI [of _ "?f0\<lparr>cells := cs'\<rparr>"]) (simp add: Border_init_def)
qed

lemma get_free_cell_small:
  assumes "\<not> (4 \<le> height f \<and> 4 \<le> width f)"
  shows "get_free_cell f r = Inl (GameOver ''win'')"
proof -
  from assms have "set (scanned f) = {}" by (auto simp: scanned_def)
  then have "scanned f = []" by simp
  then show ?thesis by (simp add: get_free_cell_def free_cells_of_def)
qed

lemma Snake_init_inv:
  assumes "wf_field f" "occupied f = border_cells f" "Snake_init f ms sc r = Inr s"
  shows "snake_inv s"
proof -
  from assms(3) obtain p cs where g: "get_free_cell f r = Inr p"
    and c: "set_cell (cells f) (fst p) (snd p) True = Some cs"
    and s: "s = \<lparr>direction = RIGHT, direction_changed = False, snake_elements = [p],
                 game_field = f\<lparr>cells := cs\<rparr>, score = sc, mice = ms\<rparr>"
    by (auto simp: Snake_init_def split: sum.splits option.splits prod.splits)
  from get_free_cell_Inr [OF assms(1) g] have i: "interior f p" and "p \<notin> occupied f"
    by (simp_all add: scanned_interior)
  from i have "in_grid f p" by (rule interior_in_grid)
  from set_cell_occupied [OF assms(1) this, of True] c
  have "wf_field (f\<lparr>cells := cs\<rparr>)" "occupied (f\<lparr>cells := cs\<rparr>) = insert p (occupied f)"
    by auto
  with i assms(2) show ?thesis by (simp add: snake_inv_def s)
qed

lemma new_game_inv:
  assumes "new_game h w r1 r2 = Inr s"
  shows "snake_inv s"
proof -
  from assms obtain f s0 m where b: "Border_init h w (GameField_init w h) = Inr f"
    and s0: "Snake_init f [] 0 r1 = Inr s0" and s: "s = s0\<lparr>mice := mice s0 @ [m]\<rparr>"
    by (auto simp: new_game_def split: sum.splits)
  from Border_init_dims [OF b] have d: "height f = h" "width f = w"
    by (simp_all add: GameField_init_def)
  have big: "4 \<le> h \<and> 4 \<le> w"
  proof (rule ccontr)
    assume "\<not> (4 \<le> h \<and> 4 \<le> w)"
    with d have "get_free_cell f r1 = Inl (GameOver ''win'')"
      by (intro get_free_cell_small) simp
    with s0 show False by (simp add: Snake_init_def)
  qed
  then have "1 \<le> h" "1 \<le> w" by simp_all
  from Border_init_ok [OF this] b have "wf_field f" "occupied f = border_cells f"
    by auto
  from Snake_init_inv [OF this s0] have "snake_inv s0" .
  then show ?thesis unfolding s by (simp add: snake_inv_def)
qed

lemma event_received_fields:
  "snake_elements (event_received s ev) = snake_elements s
   \<and> game_field (event_received s ev) = game_field s
   \<and> mice (event_received s ev) = mice s \<and> score (event_received s ev) = score s"
  by (simp add: event_received_def change_direction_def split: option.splits)

lemma events_received_fields:
  "snake_elements (events_received s evs) = snake_elements s
   \<and> game_field (events_received s evs) = game_field s
   \<and> mice (events_received s evs) = mice s \<and> score (events_received s evs) = score s"
proof (induction evs arbitrary: s)
  case Nil
  then show ?case by (simp add: events_received_def)
next
  case (Cons e es)
  then show ?case by (simp add: events_received_Cons event_received_fields)
qed

lemma events_received_inv: "snake_inv (events_received s evs) = snake_inv s"
  by (rule snake_inv_cong) (simp_all add: events_received_fields)

lemma mouse_under_head_events:
  "mouse_under_head (events_received s evs) = mouse_under_head s"
  by (simp add: mouse_under_head_def events_received_fields split: list.splits)

lemma events_received_Nil: "events_received s [] = s"
  by (simp add: events_received_def)

lemma action_keys_nil: "action_keys s [] [] r = action s r"
  unfolding action_keys_def action_def events_received_Nil by (rule refl)

lemma action_keys_Done:
  assumes "action_keys s between late r = Done s'"
  shows "\<exists>s1 s3. move s = Done s1
          \<and> s' = (events_received s3 late)\<lparr>direction_changed := False\<rparr>
          \<and> ((mouse_under_head s1 = Inr False \<and> s3 = events_received s1 between)
             \<or> (mouse_under_head s1 = Inr True \<and> eat r (events_received s1 between) = Done s3))"
proof -
  from assms obtain s1 s3 where mv: "move s = Done s1"
    and c: "(case mouse_under_head (events_received s1 between) of
               Inl e \<Rightarrow> Raised e (events_received s1 between)
             | Inr eaten \<Rightarrow>
                 if eaten then eat r (events_received s1 between)
                 else Done (events_received s1 between)) = Done s3"
    and s': "s' = (events_received s3 late)\<lparr>direction_changed := False\<rparr>"
    unfolding action_keys_def bind_Done_iff by blast
  have "(mouse_under_head s1 = Inr False \<and> s3 = events_received s1 between)
         \<or> (mouse_under_head s1 = Inr True \<and> eat r (events_received s1 between) = Done s3)"
  proof (cases "mouse_under_head s1")
    case (Inl e)
    with c show ?thesis by (simp add: mouse_under_head_events)
  next
    case (Inr eaten)
    with c show ?thesis by (cases eaten) (simp_all add: mouse_under_head_events)
  qed
  with mv s' show ?thesis by blast
qed

lemma action_keys_Done_inv:
  assumes "snake_inv s" "action_keys s between late r = Done s'"
  shows "snake_inv s'"
proof -
  from action_keys_Done [OF assms(2)] obtain s1 s3 where
    mv: "move s = Done s1"
    and s': "s' = (events_received s3 late)\<lparr>direction_changed := False\<rparr>"
    and c: "(mouse_under_head s1 = Inr False \<and> s3 = events_received s1 between)
             \<or> (mouse_under_head s1 = Inr True \<and> eat r (events_received s1 between) = Done s3)"
    by blast
  from move_Done_inv [OF assms(1) mv] have "snake_inv s1" by blast
  then have i1: "snake_inv (events_received s1 between)" by (simp add: events_received_inv)
  have "snake_inv s3"
  proof (cases "mouse_under_head s1 = Inr True")
    case False
    with c i1 show ?thesis by auto
  next
    case True
    with c have "eat r (events_received s1 between) = Done s3" by auto
    from eat_Done [OF this] obtain s2 m where
      g: "grow (events_received s1 between) = Done s2"
      and s3: "s3 = s2\<lparr>score := score s2 + 1, mice := [m]\<rparr>"
      by blast
    from grow_Done_inv [OF i1 g] have "snake_inv s2" by blast
    then show ?thesis unfolding s3 by (simp add: snake_inv_def)
  qed
  then have "snake_inv (events_received s3 late)" by (simp add: events_received_inv)
  then show ?thesis unfolding s' by (simp add: snake_inv_def)
qed

lemma reachable_inv: "reachable s \<Longrightarrow> snake_inv s"
proof (induction rule: reachable.induct)
  case (start h w r1 r2 s)
  then show ?case by (rule new_game_inv)
next
  case (event s ev)
  then show ?case by (simp add: event_received_inv)
next
  case (moved s s')
  with move_Done_inv show ?case by blast
next
  case (tick s r s')
  then show ?case by (blast intro: action_Done_inv)
next
  case (tick_keys s between late r s')
  then show ?case by (blast intro: action_keys_Done_inv)
qed

lemma reachable_play:
  "reachable s \<Longrightarrow> play s ins = Done s' \<Longrightarrow> reachable s'"
proof (induction ins arbitrary: s)
  case Nil
  then show ?case by simp
next
  case (Cons i ins)
  show ?case
  proof (cases i)
    case (Key ev)
    with Cons.prems have "play (event_received s ev) ins = Done s'" by simp
    moreover have "reachable (event_received s ev)"
      using Cons.prems(1) by (rule reachable.event)
    ultimately show ?thesis by (rule Cons.IH [rotated])
  next
    case (Tick r)
    with Cons.prems obtain s1 where a: "action s r = Done s1" and p: "play s1 ins = Done s'"
      by (auto split: outcome.splits)
    from Cons.prems(1) a have "reachable s1" by (rule reachable.tick)
    from this p show ?thesis by (rule Cons.IH)
  qed
qed

lemma reachable_kickoff: "reachable kickoff"
  using main_game_kickoff unfolding main_game_def by (rule reachable.start)

lemma reachable_fed: "reachable fed"
  using reachable_kickoff action_kickoff by (rule reachable.tick)

lemma reachable_coiled: "reachable coiled"
  using reachable_kickoff play_coiled by (rule reachable_play)

text \<open>
  C1. In every state of a game, from the set-up on (border ring marked, the snake's
  cell marked, the mouse's cell not), the marked cells of the grid are exactly the
  cells of the border ring and the cells of the snake's segments; and so they are after
  every \<open>action\<close> and every \<open>move\<close> that returns from such a state. No cell that the
  tail left stays marked, and no mouse marks a cell.
\<close>

theorem occupancy_invariant:
  assumes "reachable s"
  shows "occupied (game_field s) = border_cells (game_field s) \<union> set (snake_elements s)
       \<and> (\<forall>r s'. action s r = Done s' \<or> move s = Done s' \<longrightarrow>
            occupied (game_field s') = border_cells (game_field s') \<union> set (snake_elements s'))"
proof -
  have *: "occupied (game_field x) = border_cells (game_field x) \<union> set (snake_elements x)"
    if "reachable x" for x
    using reachable_inv [OF that] by (simp add: snake_inv_def)
  have "reachable s'" if "action s r = Done s' \<or> move s = Done s'" for r s'
    using that assms by (blast intro: reachable.tick reachable.moved)
  with * assms show ?thesis by blast
qed

theorem occupancy_invariant_witness:
  "reachable kickoff \<and> action kickoff 1 = Done fed
   \<and> occupied (game_field fed) = border_cells (game_field fed) \<union> {(1, 3), (1, 2)}
   \<and> occupied (game_field kickoff) = border_cells (game_field kickoff) \<union> {(1, 1)}"
proof -
  note t = occupancy_invariant [OF reachable_kickoff]
  from t have 1: "occupied (game_field kickoff)
      = border_cells (game_field kickoff) \<union> set (snake_elements kickoff)"
    by blast
  from t action_kickoff have 2: "occupied (game_field fed)
      = border_cells (game_field fed) \<union> set (snake_elements fed)"
    by blast
  have 3: "set (snake_elements kickoff) = {(1, 1)}" by (simp add: kickoff_def)
  have 4: "set (snake_elements fed) = {(1, 3), (1, 2)}" by (simp add: fed_def)
  from 1 2 reachable_kickoff action_kickoff show ?thesis unfolding 3 4 by blast
qed

lemma move_kickoff: "move kickoff = Done (final (move kickoff))"
  by code_simp

lemma move_kickoff_mouse: "mouse_under_head (final (move kickoff)) = Inr True"
  by code_simp

lemma kickoff_field: "wf_field (game_field kickoff) \<and> get_free_cell (game_field kickoff) 0 = Inr (1, 2)"
  by code_simp

text \<open>
  C7. A cell that \<open>get_free_cell\<close> returns lies inside the border ring and is not
  marked. So in a game, after a tick in which the mouse was eaten, the one mouse of
  the world is on a cell that no segment of the snake and no border cell occupies.
\<close>

theorem get_free_cell_free:
  "(wf_field f \<and> get_free_cell f k = Inr p
      \<longrightarrow> interior f p \<and> p \<notin> border_cells f \<and> p \<notin> occupied f)
   \<and> (reachable s \<and> move s = Done s1 \<and> mouse_under_head s1 = Inr True
        \<and> action s r = Done s'
      \<longrightarrow> (\<exists>m. mice s' = [m] \<and> m \<notin> set (snake_elements s')
                \<and> m \<notin> border_cells (game_field s') \<and> m \<notin> occupied (game_field s')))"
proof (rule conjI; rule impI)
  assume a: "wf_field f \<and> get_free_cell f k = Inr p"
  then have "p \<in> set (scanned f)" and "p \<notin> occupied f"
    using get_free_cell_Inr by blast+
  then show "interior f p \<and> p \<notin> border_cells f \<and> p \<notin> occupied f"
    by (simp add: scanned_interior interior_not_border)
next
  assume a: "reachable s \<and> move s = Done s1 \<and> mouse_under_head s1 = Inr True
        \<and> action s r = Done s'"
  then have i: "snake_inv s" by (simp add: reachable_inv)
  from a action_Done [of s r s'] obtain s3 where
    e: "eat r s1 = Done s3" and s': "s' = s3\<lparr>direction_changed := False\<rparr>"
    by auto
  from eat_Done [OF e] obtain s2 m where
    g: "grow s1 = Done s2" and m: "get_free_cell (game_field s2) r = Inr m"
    and s3: "s3 = s2\<lparr>score := score s2 + 1, mice := [m]\<rparr>"
    by blast
  from a i move_Done_inv have "snake_inv s1" by blast
  with g grow_Done_inv have i2: "snake_inv s2" by blast
  then have wf: "wf_field (game_field s2)"
    and o: "occupied (game_field s2) = border_cells (game_field s2) \<union> set (snake_elements s2)"
    by (simp_all add: snake_inv_def)
  from get_free_cell_Inr [OF wf m] have "m \<notin> occupied (game_field s2)" by simp
  with o show "\<exists>m. mice s' = [m] \<and> m \<notin> set (snake_elements s')
                \<and> m \<notin> border_cells (game_field s') \<and> m \<notin> occupied (game_field s')"
    by (intro exI [of _ m]) (simp add: s' s3)
qed

theorem get_free_cell_free_witness:
  "interior (game_field kickoff) (1, 2) \<and> (1, 2) \<notin> occupied (game_field kickoff)
   \<and> action kickoff 1 = Done fed \<and> mice fed = [(1, 4)]
   \<and> (1, 4) \<notin> set (snake_elements fed) \<and> (1, 4) \<notin> border_cells (game_field fed)"
  using get_free_cell_free [of "game_field kickoff" 0 "(1, 2)" kickoff "final (move kickoff)" 1 fed]
    kickoff_field reachable_kickoff move_kickoff move_kickoff_mouse action_kickoff
  by (simp add: fed_def)

section \<open>Ticks in which the mouse is eaten, and moves that collide\<close>

lemma move_tail_loop_ok:
  "move_tail_loop prev es cs = (True, es', cs', lp) \<Longrightarrow>
   es' = butlast (prev # es) \<and> lp = last (prev # es)"
proof (induction es arbitrary: prev cs es')
  case Nil
  then show ?case by simp
next
  case (Cons e es)
  from Cons.prems obtain cs1 es1 where
    "set_cell cs (fst prev) (snd prev) True = Some cs1"
    and l: "move_tail_loop e es cs1 = (True, es1, cs', lp)" and e: "es' = prev # es1"
    by (auto split: option.splits prod.splits)
  from Cons.IH [OF l] e show ?case by simp
qed

lemma move_tail_Done:
  assumes "move_tail s = Done s0"
  shows "\<exists>h t cs. snake_elements s = h # t
           \<and> s0 = put_cells (s\<lparr>snake_elements := h # butlast (h # t)\<rparr>) cs"
proof -
  from assms obtain h t where ht: "snake_elements s = h # t"
    by (cases "snake_elements s") (auto simp: move_tail_def)
  obtain ok t' cs lp where l: "move_tail_loop h t (cells (game_field s)) = (ok, t', cs, lp)"
    by (cases "move_tail_loop h t (cells (game_field s))") auto
  from assms ht l have ok: "ok"
    by (auto simp: move_tail_def split: if_splits)
  with l have "move_tail_loop h t (cells (game_field s)) = (True, t', cs, lp)" by simp
  from move_tail_loop_ok [OF this] have t': "t' = butlast (h # t)" by simp
  from assms ht l ok obtain cs' where
    "s0 = put_cells (s\<lparr>snake_elements := h # t'\<rparr>) cs'"
    by (auto simp: move_tail_def split: option.splits)
  with ht t' show ?thesis by blast
qed

lemma move_head_Done:
  assumes "snake_elements s = h # rest" "move_head s = Done s'"
  shows "\<exists>cs. s' = put_cells (s\<lparr>snake_elements := ahead (direction s) h # rest\<rparr>) cs"
  using assms(2) unfolding move_head_eq [OF assms(1)]
  by (auto split: option.splits if_splits)

lemma move_Done:
  assumes "move s = Done s1"
  shows "\<exists>h t cs. snake_elements s = h # t
           \<and> s1 = put_cells (s\<lparr>snake_elements := ahead (direction s) h # butlast (h # t)\<rparr>) cs"
proof -
  from assms obtain s0 where a: "move_tail s = Done s0" and b: "move_head s0 = Done s1"
    by (auto simp: move_def bind_Done_iff)
  from move_tail_Done [OF a] obtain h t cs0 where ht: "snake_elements s = h # t"
    and s0: "s0 = put_cells (s\<lparr>snake_elements := h # butlast (h # t)\<rparr>) cs0"
    by blast
  have "snake_elements s0 = h # butlast (h # t)" unfolding s0 by simp
  from move_head_Done [OF this b] obtain cs where
    "s1 = put_cells (s0\<lparr>snake_elements := ahead (direction s0) h # butlast (h # t)\<rparr>) cs"
    by blast
  then have "s1 = put_cells (s\<lparr>snake_elements := ahead (direction s) h # butlast (h # t)\<rparr>) cs"
    unfolding s0 by (simp add: put_cells_def)
  with ht show ?thesis by blast
qed

lemma grow_cases:
  assumes "snake_elements s = h # t"
  shows "(\<exists>e. grow s = Raised e (s\<lparr>snake_elements := h # h # t\<rparr>))
       \<or> (\<exists>e. grow s = Raised e (s\<lparr>snake_elements := ahead (direction s) h # h # t\<rparr>))
       \<or> (\<exists>cs. grow s = Done (put_cells (s\<lparr>snake_elements := ahead (direction s) h # h # t\<rparr>) cs))"
proof -
  let ?s = "s\<lparr>snake_elements := h # h # t\<rparr>"
  have gr: "grow s = move_head ?s"
    using assms by (cases h) (simp add: grow_def)
  have e: "snake_elements ?s = h # h # t" by simp
  show ?thesis
    unfolding gr move_head_eq [OF e]
    by (auto split: option.splits)
qed

lemma eat_final_snake: "snake_elements (final (eat r s)) = snake_elements (final (grow s))"
  by (cases "grow s") (simp_all add: eat_def split: sum.splits)

lemma action_final_snake:
  assumes "move s = Done s1" "mouse_under_head s1 = Inr True"
  shows "snake_elements (final (action s r)) = snake_elements (final (grow s1))"
proof -
  have "action s r = bind (eat r s1) (\<lambda>s3. Done (s3\<lparr>direction_changed := False\<rparr>))"
    using assms by (simp add: action_def)
  then have "snake_elements (final (action s r)) = snake_elements (final (eat r s1))"
    by (cases "eat r s1") simp_all
  then show ?thesis by (simp add: eat_final_snake)
qed

lemma mouse_under_head_snake:
  "mouse_under_head s = Inr b \<Longrightarrow> \<exists>h t. snake_elements s = h # t"
  by (cases "snake_elements s") (auto simp: mouse_under_head_def split: list.splits)

lemma kickoff_moved_head: "snake_elements (final (move kickoff)) = [(1, 2)]"
  by code_simp

text \<open>
  C6. In a tick whose \<open>move\<close> puts the head on the mouse, the snake has one segment
  more after the tick than before it, whether the tick then returns or raises. The
  segments after the tick are one new head in front of all the segments as \<open>move\<close>
  left them: the segment that \<open>grow\<close> adds is a copy of the head at the position the
  head has when \<open>grow\<close> is called, before \<open>grow\<close> advances the head, and that position
  is the one of the second segment after the tick. When the tick returns, the new head
  is one cell ahead of it.
\<close>

theorem growth_on_eating:
  assumes "move s = Done s1" "mouse_under_head s1 = Inr True"
  shows "length (snake_elements (final (action s r))) = length (snake_elements s) + 1
       \<and> tl (snake_elements (final (action s r))) = snake_elements s1
       \<and> snake_elements (final (action s r)) ! 1 = hd (snake_elements s1)
       \<and> (\<forall>s'. action s r = Done s' \<longrightarrow>
            snake_elements s' = ahead (direction s1) (hd (snake_elements s1)) # snake_elements s1)"
proof -
  from mouse_under_head_snake [OF assms(2)] obtain h1 t1 where
    s1: "snake_elements s1 = h1 # t1" by blast
  from move_Done [OF assms(1)] s1 have len: "length (snake_elements s) = length (h1 # t1)"
    by auto
  have fin: "snake_elements (final (action s r)) = snake_elements (final (grow s1))"
    using assms by (rule action_final_snake)
  from grow_cases [OF s1] have c: "snake_elements (final (grow s1)) = h1 # h1 # t1
      \<or> snake_elements (final (grow s1)) = ahead (direction s1) h1 # h1 # t1"
    by auto
  have d: "snake_elements s' = ahead (direction s1) h1 # h1 # t1" if "action s r = Done s'" for s'
  proof -
    from action_Done [OF that] assms obtain s3 where
      e: "eat r s1 = Done s3" and s': "s' = s3\<lparr>direction_changed := False\<rparr>"
      by auto
    from eat_Done [OF e] obtain s2 m where g: "grow s1 = Done s2"
      and s3: "s3 = s2\<lparr>score := score s2 + 1, mice := [m]\<rparr>"
      by blast
    from grow_cases [OF s1] g have "snake_elements s2 = ahead (direction s1) h1 # h1 # t1"
      by auto
    then show ?thesis by (simp add: s' s3)
  qed
  from c d show ?thesis unfolding fin s1 len by auto
qed

theorem growth_on_eating_witness:
  "action kickoff 1 = Done fed
   \<and> length (snake_elements fed) = length (snake_elements kickoff) + 1
   \<and> snake_elements fed ! 1 = (1, 2)
   \<and> snake_elements fed = [(1, 3), (1, 2)]"
proof -
  note t = growth_on_eating [OF move_kickoff move_kickoff_mouse, of 1]
  have f: "final (action kickoff 1) = fed" unfolding action_kickoff by simp
  from t have a: "length (snake_elements fed) = length (snake_elements kickoff) + 1"
    and b: "snake_elements fed ! 1 = hd (snake_elements (final (move kickoff)))"
    unfolding f by blast+
  have c: "hd (snake_elements (final (move kickoff))) = (1, 2)"
    by (simp add: kickoff_moved_head)
  have d: "snake_elements fed = [(1, 3), (1, 2)]" by (simp add: fed_def)
  from action_kickoff a b [unfolded c] d show ?thesis by blast
qed

lemma move_cornered: "move cornered = Done (final (move cornered))"
  by code_simp

lemma move_cornered_mouse: "mouse_under_head (final (move cornered)) = Inr True"
  by code_simp

lemma cornered_moved:
  "snake_elements (final (move cornered)) = [(1, 1)]
   \<and> direction (final (move cornered)) = LEFT
   \<and> get_cell (cells (game_field (final (move cornered)))) 1 0 = Some True"
  by code_simp

lemma direction_changed_put_cells [simp]:
  "direction_changed (put_cells s cs) = direction_changed s"
  by (simp add: put_cells_def)

lemma cornered_moved_up:
  "get_cell (cells (game_field (final (move cornered)))) 0 1 = Some True"
  by code_simp

lemma kickoff_turned:
  "action_keys kickoff [KEY_DOWN] [] 1 = Done (final (action_keys kickoff [KEY_DOWN] [] 1))
   \<and> snake_elements (final (action_keys kickoff [KEY_DOWN] [] 1)) = [(2, 2), (1, 2)]"
  by code_simp

lemma kickoff_heading:
  "direction kickoff = RIGHT \<and> hd (snake_elements kickoff) = (1, 1)
   \<and> ahead RIGHT (ahead RIGHT (1, 1)) = (1, 3) \<and> ahead DOWN (ahead DOWN (1, 1)) = (3, 1)"
  by code_simp

lemma eating_tick_keys:
  assumes "move s = Done s1" "mouse_under_head s1 = Inr True"
    "action_keys s between late r = Done s'"
  shows "\<exists>h1 t1. snake_elements s1 = h1 # t1
           \<and> snake_elements s' = ahead (direction (events_received s1 between)) h1 # h1 # t1"
proof -
  let ?s1 = "events_received s1 between"
  from mouse_under_head_snake [OF assms(2)] obtain h1 t1 where
    s1: "snake_elements s1 = h1 # t1" by blast
  then have e1: "snake_elements ?s1 = h1 # t1" by (simp add: events_received_fields)
  from action_keys_Done [OF assms(3)] assms(1,2) obtain s3 where
    e: "eat r ?s1 = Done s3"
    and s': "s' = (events_received s3 late)\<lparr>direction_changed := False\<rparr>"
    by auto
  from eat_Done [OF e] obtain s2 m where g: "grow ?s1 = Done s2"
    and s3: "s3 = s2\<lparr>score := score s2 + 1, mice := [m]\<rparr>"
    by blast
  from grow_cases [OF e1] g have "snake_elements s2 = ahead (direction ?s1) h1 # h1 # t1"
    by auto
  with s1 show ?thesis by (simp add: s' s3 events_received_fields)
qed

text \<open>
  C9, as the claim states it, fails: \<open>action\<close> holds no lock from \<open>move\<close> to \<open>grow\<close>, so
  a key event that arrives between them and is accepted turns the second advance. From
  the set-up of \<open>main\<close>, with the head on \<open>(1, 1)\<close> heading right and the mouse ahead of
  it, a tick during which the down key arrives after \<open>move\<close> returns with the head on
  \<open>(2, 2)\<close>: one cell to the right and one down, two cells along neither heading.
\<close>

theorem eating_tick_turned_by_key:
  "reachable kickoff
   \<and> direction kickoff = RIGHT \<and> hd (snake_elements kickoff) = (1, 1)
   \<and> mouse_under_head (final (move kickoff)) = Inr True
   \<and> action_keys kickoff [KEY_DOWN] [] 1 = Done (final (action_keys kickoff [KEY_DOWN] [] 1))
   \<and> snake_elements (final (action_keys kickoff [KEY_DOWN] [] 1)) = [(2, 2), (1, 2)]
   \<and> ahead RIGHT (ahead RIGHT (1, 1)) = (1, 3) \<and> ahead DOWN (ahead DOWN (1, 1)) = (3, 1)"
  using reachable_kickoff kickoff_heading move_kickoff_mouse kickoff_turned by blast

text \<open>
  C9, amended. In a tick whose \<open>move\<close> puts the head on the mouse and that returns, the
  head has advanced twice: \<open>move\<close> advances the snake one cell in the heading it finds,
  and \<open>grow\<close> advances the head once more, in front of the head that \<open>move\<close> left and of
  the shifted tail, in the heading it finds then. The two headings are the same, and
  the head ends two cells ahead in the direction of travel, unless a key event that
  arrived between \<open>move\<close> and \<open>grow\<close> was accepted: so it is when the flag was set at the
  start of the tick, when no recognized key arrived in between, and in a tick during
  which no key event arrives at all. The second advance checks for a collision as the
  first does: when the cell ahead of the moved head, in the heading \<open>grow\<close> finds, is
  marked, the tick raises \<open>GameOver\<close> with the cause \<open>bumped\<close> and that heading, the
  copied head already inserted.
\<close>

theorem eating_tick_two_advances:
  assumes "move s = Done s1" "mouse_under_head s1 = Inr True"
  shows "(\<forall>s'. action_keys s between late r = Done s' \<longrightarrow>
            (\<exists>h t. snake_elements s = h # t
                \<and> snake_elements s'
                    = ahead (direction (events_received s1 between)) (ahead (direction s) h)
                      # ahead (direction s) h # butlast (h # t)))
       \<and> (direction_changed s \<or> filter recognized between = []
            \<longrightarrow> direction (events_received s1 between) = direction s)
       \<and> (\<forall>s'. action s r = Done s' \<longrightarrow>
            (\<exists>h t. snake_elements s = h # t
                \<and> snake_elements s'
                    = ahead (direction s) (ahead (direction s) h)
                      # ahead (direction s) h # butlast (h # t)))
       \<and> (\<forall>h1 t1. snake_elements s1 = h1 # t1
              \<and> get_cell (cells (game_field s1))
                   (fst (ahead (direction (events_received s1 between)) h1))
                   (snd (ahead (direction (events_received s1 between)) h1)) = Some True
            \<longrightarrow> action_keys s between late r
                  = Raised (GameOver (bumped (direction (events_received s1 between))))
                      ((events_received s1 between)\<lparr>snake_elements := h1 # h1 # t1\<rparr>))"
proof -
  from move_Done [OF assms(1)] obtain h t cs where ht: "snake_elements s = h # t"
    and s1: "s1 = put_cells (s\<lparr>snake_elements := ahead (direction s) h # butlast (h # t)\<rparr>) cs"
    by blast
  have d1: "direction s1 = direction s" unfolding s1 by simp
  have f1: "direction_changed s1 = direction_changed s" unfolding s1 by simp
  have e1: "snake_elements s1 = ahead (direction s) h # butlast (h # t)"
    unfolding s1 by simp
  have a: "snake_elements s'
             = ahead (direction (events_received s1 bs)) (ahead (direction s) h)
               # ahead (direction s) h # butlast (h # t)"
    if "action_keys s bs ls r = Done s'" for s' bs ls
    using eating_tick_keys [OF assms that] by (simp add: e1 del: butlast.simps)
  have b: "direction (events_received s1 between) = direction s"
    if "direction_changed s \<or> filter recognized between = []"
  proof (cases "direction_changed s1")
    case True
    then show ?thesis by (simp add: events_received_flag_set d1)
  next
    case False
    with that f1 have "filter recognized between = []" by simp
    with False show ?thesis by (simp add: events_received_first_recognized d1)
  qed
  have c: "snake_elements s'
             = ahead (direction s) (ahead (direction s) h) # ahead (direction s) h # butlast (h # t)"
    if "action s r = Done s'" for s'
  proof -
    from that have "action_keys s [] [] r = Done s'" by (simp add: action_keys_nil)
    from a [OF this] show ?thesis by (simp add: events_received_def d1 del: butlast.simps)
  qed
  have d: "action_keys s between late r
             = Raised (GameOver (bumped (direction (events_received s1 between))))
                 ((events_received s1 between)\<lparr>snake_elements := h1 # h1 # t1\<rparr>)"
    if "snake_elements s1 = h1 # t1"
      and "get_cell (cells (game_field s1))
             (fst (ahead (direction (events_received s1 between)) h1))
             (snd (ahead (direction (events_received s1 between)) h1)) = Some True"
    for h1 t1
  proof -
    let ?s1 = "events_received s1 between"
    let ?s = "?s1\<lparr>snake_elements := h1 # h1 # t1\<rparr>"
    have "snake_elements ?s1 = h1 # t1" using that(1) by (simp add: events_received_fields)
    then have "grow ?s1 = move_head ?s"
      by (cases h1) (simp add: grow_def)
    also have "\<dots> = Raised (GameOver (bumped (direction ?s1))) ?s"
      using that(2) move_head_eq [of ?s h1 "h1 # t1"] by (simp add: events_received_fields)
    finally have "eat r ?s1 = Raised (GameOver (bumped (direction ?s1))) ?s"
      by (simp add: eat_def)
    with assms show ?thesis by (simp add: action_keys_def mouse_under_head_events)
  qed
  from a [of between late] b c d ht show ?thesis by blast
qed

theorem eating_tick_two_advances_witness:
  "action kickoff 1 = Done fed
   \<and> hd (snake_elements kickoff) = (1, 1) \<and> hd (snake_elements fed) = (1, 3)
   \<and> action_keys cornered [KEY_UP] [] 7
       = Raised (GameOver ''bumped up'')
           ((events_received (final (move cornered)) [KEY_UP])\<lparr>snake_elements := [(1, 1), (1, 1)]\<rparr>)"
proof -
  note t = eating_tick_two_advances [OF move_kickoff move_kickoff_mouse, of "[]" "[]" 1]
  note u = eating_tick_two_advances [OF move_cornered move_cornered_mouse, of "[KEY_UP]" "[]" 7]
  from t action_kickoff obtain h t where
    "snake_elements kickoff = h # t"
    "snake_elements fed
       = ahead (direction kickoff) (ahead (direction kickoff) h)
         # ahead (direction kickoff) h # butlast (h # t)"
    by blast
  then have a: "hd (snake_elements kickoff) = (1, 1)" "hd (snake_elements fed) = (1, 3)"
    by (auto simp: kickoff_def)
  have up: "direction (events_received (final (move cornered)) [KEY_UP]) = UP"
    by code_simp
  from u cornered_moved cornered_moved_up have
    "action_keys cornered [KEY_UP] [] 7
       = Raised (GameOver ''bumped up'')
           ((events_received (final (move cornered)) [KEY_UP])\<lparr>snake_elements := [(1, 1), (1, 1)]\<rparr>)"
    unfolding up by simp
  with a action_kickoff show ?thesis by blast
qed

lemma coiled_blocked:
  "direction coiled = UP \<and> hd (snake_elements coiled) = (2, 6) \<and> ahead UP (2, 6) = (1, 6)
   \<and> (1, 6) \<in> occupied (game_field coiled)
   \<and> get_cell (cells (game_field coiled)) 1 6 = Some True"
  by code_simp

lemma fed_up:
  "wf_field (game_field (fed\<lparr>direction := UP\<rparr>))
   \<and> snake_elements (fed\<lparr>direction := UP\<rparr>) = [(1, 3), (1, 2)]
   \<and> list_all (in_grid (game_field (fed\<lparr>direction := UP\<rparr>))) [(1, 3), (1, 2)]
   \<and> ahead (direction (fed\<lparr>direction := UP\<rparr>)) (1, 3) = (0, 3)
   \<and> in_grid (game_field (fed\<lparr>direction := UP\<rparr>)) (0, 3)
   \<and> (0, 3) \<in> occupied (game_field (fed\<lparr>direction := UP\<rparr>))"
  by code_simp

lemma kickoff_up:
  "wf_field (game_field (kickoff\<lparr>direction := UP\<rparr>))
   \<and> snake_elements (kickoff\<lparr>direction := UP\<rparr>) = [(1, 1)]
   \<and> list_all (in_grid (game_field (kickoff\<lparr>direction := UP\<rparr>))) [(1, 1)]
   \<and> ahead (direction (kickoff\<lparr>direction := UP\<rparr>)) (1, 1) = (0, 1)
   \<and> in_grid (game_field (kickoff\<lparr>direction := UP\<rparr>)) (0, 1)
   \<and> (0, 1) \<in> occupied (game_field (kickoff\<lparr>direction := UP\<rparr>))"
  by code_simp

text \<open>
  C10, as the claim states it, fails: in a state of a game on the board of \<open>main\<close> the
  snake is coiled in a square, the cell ahead of its head is marked, being the cell of
  its last segment, and \<open>move\<close> returns: the tail shift has unmarked that cell before
  the head is checked against it.
\<close>

theorem move_into_vacated_cell_returns:
  "reachable coiled
   \<and> direction coiled = UP \<and> hd (snake_elements coiled) = (2, 6) \<and> ahead UP (2, 6) = (1, 6)
   \<and> (1, 6) \<in> occupied (game_field coiled)
   \<and> get_cell (cells (game_field coiled)) 1 6 = Some True
   \<and> move coiled = Done (coiled\<lparr>snake_elements := [(1, 6), (2, 6), (2, 7), (1, 7)]\<rparr>)"
  using reachable_coiled coiled_blocked move_coiled by blast

text \<open>
  C10, amended. On a well-formed grid, for a snake whose segments and whose cell ahead
  of the head are cells of the grid: when the cell ahead is marked and is not the cell
  of the last segment, \<open>move\<close> raises \<open>GameOver\<close> with the cause \<open>bumped\<close> and the
  heading, and the state it leaves is the one after the tail shift. The head is where
  it was, every other segment is where its predecessor was, and the cell of the old
  last segment, the head's own cell for a snake of one segment, is no longer marked.
\<close>

theorem move_collision_not_atomic:
  assumes "wf_field (game_field s)" "snake_elements s = h # t"
    "list_all (in_grid (game_field s)) (h # t)"
    "in_grid (game_field s) (ahead (direction s) h)"
    "ahead (direction s) h \<in> occupied (game_field s)"
    "ahead (direction s) h \<noteq> last (h # t)"
  shows "move s = Raised (GameOver (bumped (direction s))) (final (move s))
       \<and> snake_elements (final (move s)) = h # butlast (h # t)
       \<and> hd (snake_elements (final (move s))) = h
       \<and> (\<forall>i. 0 < i \<and> i < length (h # t)
             \<longrightarrow> snake_elements (final (move s)) ! i = (h # t) ! (i - 1))
       \<and> last (h # t) \<notin> occupied (game_field (final (move s)))
       \<and> occupied (game_field (final (move s)))
           = (occupied (game_field s) \<union> set (butlast (h # t))) - {last (h # t)}"
proof -
  let ?f = "game_field s" and ?d = "ahead (direction s) h"
  from move_tail_in_grid [OF assms(1,2,3)] obtain cs1 where
    mt: "move_tail s = Done (put_cells (s\<lparr>snake_elements := h # butlast (h # t)\<rparr>) cs1)"
    and w1: "wf_field (?f\<lparr>cells := cs1\<rparr>)"
    and o1: "occupied (?f\<lparr>cells := cs1\<rparr>) = (occupied ?f \<union> set (butlast (h # t))) - {last (h # t)}"
    by blast
  let ?s1 = "put_cells (s\<lparr>snake_elements := h # butlast (h # t)\<rparr>) cs1"
  have e1: "snake_elements ?s1 = h # butlast (h # t)" by simp
  have wf1: "wf_field (game_field ?s1)" using w1 by simp
  have g1: "in_grid (game_field ?s1) (ahead (direction ?s1) h)" using assms(4) by simp
  have blocked: "ahead (direction ?s1) h \<in> occupied (game_field ?s1)"
    using assms(5,6) o1 by simp
  from move_head_in_grid [OF wf1 e1 g1] blocked
  have mh: "move_head ?s1 = Raised (GameOver (bumped (direction s))) ?s1"
    by auto
  have mv: "move s = Raised (GameOver (bumped (direction s))) ?s1"
    by (simp add: move_def mt mh del: butlast.simps)
  then have fin: "final (move s) = ?s1" by simp
  have nth: "(h # butlast (h # t)) ! i = (h # t) ! (i - 1)" if "0 < i" "i < length (h # t)" for i
  proof -
    from that obtain j where i: "i = Suc j" by (cases i) auto
    with that have "j < length (butlast (h # t))" by (simp del: butlast.simps)
    then have "butlast (h # t) ! j = (h # t) ! j" by (rule nth_butlast)
    with i show ?thesis by (simp del: butlast.simps)
  qed
  show ?thesis
    unfolding fin using mv o1 nth by (simp del: butlast.simps)
qed

theorem move_collision_not_atomic_witness:
  "move (fed\<lparr>direction := UP\<rparr>)
     = Raised (GameOver ''bumped up'') (final (move (fed\<lparr>direction := UP\<rparr>)))
   \<and> snake_elements (final (move (fed\<lparr>direction := UP\<rparr>))) = [(1, 3), (1, 3)]
   \<and> (1, 2) \<notin> occupied (game_field (final (move (fed\<lparr>direction := UP\<rparr>))))
   \<and> move (kickoff\<lparr>direction := UP\<rparr>)
     = Raised (GameOver ''bumped up'') (final (move (kickoff\<lparr>direction := UP\<rparr>)))
   \<and> snake_elements (final (move (kickoff\<lparr>direction := UP\<rparr>))) = [(1, 1)]
   \<and> (1, 1) \<notin> occupied (game_field (final (move (kickoff\<lparr>direction := UP\<rparr>))))"
proof -
  have a: "move (fed\<lparr>direction := UP\<rparr>)
     = Raised (GameOver ''bumped up'') (final (move (fed\<lparr>direction := UP\<rparr>)))
   \<and> snake_elements (final (move (fed\<lparr>direction := UP\<rparr>))) = [(1, 3), (1, 3)]
   \<and> (1, 2) \<notin> occupied (game_field (final (move (fed\<lparr>direction := UP\<rparr>))))"
    using move_collision_not_atomic [of "fed\<lparr>direction := UP\<rparr>" "(1, 3)" "[(1, 2)]"] fed_up
    by simp
  have b: "move (kickoff\<lparr>direction := UP\<rparr>)
     = Raised (GameOver ''bumped up'') (final (move (kickoff\<lparr>direction := UP\<rparr>)))
   \<and> snake_elements (final (move (kickoff\<lparr>direction := UP\<rparr>))) = [(1, 1)]
   \<and> (1, 1) \<notin> occupied (game_field (final (move (kickoff\<lparr>direction := UP\<rparr>))))"
    using move_collision_not_atomic [of "kickoff\<lparr>direction := UP\<rparr>" "(1, 1)" "[]"] kickoff_up
    by simp
  from a b show ?thesis by blast
qed

end
